theory Spec2Isabelle
  imports Main "HOL-Library.Char_ord" "HOL-Library.List_Lexorder" "HOL-Library.Sublist"
    "HOL-Library.Multiset" "HOL-Library.AList"
begin

section \<open>Paths: the part of Go's \<open>path/filepath\<close> and \<open>strings\<close> that the archiver calls\<close>

text \<open>
  The archiver is written against \<open>os.PathSeparator\<close>; the development fixes the Unix
  value \<open>/\<close>. Go strings are byte strings, here \<open>string\<close>. The library functions
  \<open>filepath.Clean\<close>, \<open>filepath.Join\<close>, \<open>filepath.Base\<close> and \<open>filepath.Dir\<close> are not code of
  the repository; they are written out after the rules of their documentation, on the
  list of path elements: runs of separators collapse, \<open>.\<close> elements disappear, an inner
  \<open>..\<close> removes the element before it, a \<open>..\<close> at the start of a rooted path disappears,
  and the empty result is \<open>.\<close>.
\<close>

definition PathSeparator :: char where
  "PathSeparator = CHR ''/''"

text \<open>\<open>strings.Split(s, "/")\<close>: the elements between separators, empty ones included.\<close>

fun splitSep :: "string \<Rightarrow> string list" where
  "splitSep [] = [[]]"
| "splitSep (c # cs) =
     (if c = PathSeparator then [] # splitSep cs
      else (case splitSep cs of [] \<Rightarrow> [[c]] | e # es \<Rightarrow> (c # e) # es))"

text \<open>\<open>strings.Join(elems, "/")\<close>.\<close>

fun joinSep :: "string list \<Rightarrow> string" where
  "joinSep [] = []"
| "joinSep [e] = e"
| "joinSep (e # es) = e @ PathSeparator # joinSep es"

text \<open>
  The loop of \<open>filepath.Clean\<close> over the elements of the path. \<open>out\<close> is the output
  buffer as a stack of elements (last written first). A \<open>..\<close> backtracks over the last
  real element when there is one; otherwise it is kept when the path is not rooted and
  dropped when it is.
\<close>

fun cleanElems :: "bool \<Rightarrow> string list \<Rightarrow> string list \<Rightarrow> string list" where
  "cleanElems rooted out [] = rev out"
| "cleanElems rooted out (e # es) =
     (if e = [] \<or> e = ''.'' then cleanElems rooted out es
      else if e = ''..'' then
        (if out \<noteq> [] \<and> hd out \<noteq> ''..'' then cleanElems rooted (tl out) es
         else if \<not> rooted then cleanElems rooted (''..'' # out) es
         else cleanElems rooted out es)
      else cleanElems rooted (e # out) es)"

definition Clean :: "string \<Rightarrow> string" where
  "Clean path =
     (if path = [] then ''.''
      else
        let rooted = (hd path = PathSeparator);
            out = cleanElems rooted [] (splitSep path)
        in if rooted then PathSeparator # joinSep out
           else if out = [] then ''.''
           else joinSep out)"

text \<open>\<open>filepath.Join(a, b)\<close>: empty elements are ignored, the rest is joined and cleaned.\<close>

definition Join :: "string \<Rightarrow> string \<Rightarrow> string" where
  "Join a b =
     (if a \<noteq> [] then Clean (a @ PathSeparator # b)
      else if b \<noteq> [] then Clean b
      else [])"

text \<open>
  \<open>filepath.Base\<close>: the last element of the path, trailing separators removed first;
  \<open>.\<close> for the empty path and \<open>/\<close> for a path of separators only.
\<close>

definition Base :: "string \<Rightarrow> string" where
  "Base path =
     (if path = [] then ''.''
      else
        let p = rev (dropWhile (\<lambda>c. c = PathSeparator) (rev path));
            b = rev (takeWhile (\<lambda>c. c \<noteq> PathSeparator) (rev p))
        in if b = [] then [PathSeparator] else b)"

text \<open>\<open>filepath.Dir\<close>: everything up to and including the last separator, cleaned.\<close>

definition Dir :: "string \<Rightarrow> string" where
  "Dir path = Clean (rev (dropWhile (\<lambda>c. c \<noteq> PathSeparator) (rev path)))"

section \<open>Errors\<close>

text \<open>
  A Go \<open>error\<close> value: \<open>errors.New\<close> of a message, the sentinel \<open>fs.ErrExist\<close> that
  \<open>errors.Is\<close> tests for, or a failure reported by the operating system or the zip
  codec (identified by its message).
\<close>

datatype error = ErrNew string | ErrExist | ErrSys string

section \<open>The path safety gate\<close>

text \<open>
  \<open>ensureInside(baseDir, target)\<close>; \<open>None\<close> is Go's \<open>nil\<close> error.
\<close>

definition ensureInside :: "string \<Rightarrow> string \<Rightarrow> error option" where
  "ensureInside baseDir target =
     (let cleanBase = Clean baseDir;
          cleanTarget = Clean target
      in if cleanTarget = cleanBase then None
         else
           let withSep = cleanBase @ [PathSeparator]
           in if \<not> prefix withSep cleanTarget
              then Some (ErrNew (''zip slip detected: '' @ target))
              else None)"

section \<open>Unpacking: \<open>UnzipParallelAll\<close>\<close>

text \<open>
  One \<open>*zip.File\<close> of the opened archive, as far as the unpacker reads it: the entry
  name, \<open>f.FileInfo().IsDir()\<close>, \<open>f.Mode()\<close>, \<open>f.Modified\<close> and the bytes of the
  decompressed stream.
\<close>

record zfile =
  f_Name :: string
  f_IsDir :: bool
  f_Mode :: nat
  f_Modified :: nat
  f_Data :: string

text \<open>
  The calls the unpacker makes on the file system and on the codec. \<open>OpenFile\<close> is
  always called with \<open>O_CREATE|O_WRONLY|O_TRUNC\<close>; \<open>Chtimes\<close> carries the modification
  time (its access time is the clock reading, which no property here looks at).
\<close>

datatype fsop =
    MkdirAll string nat
  | OpenEntry string
  | OpenFile string nat
  | Copy string string
  | CloseFile string
  | Chtimes string nat

text \<open>
  An event of a run: the entry on whose behalf the call was made (\<open>None\<close> for the call
  on the destination directory itself), the call, and the error it returned. A trace
  lists the events newest first.
\<close>

type_synonym event = "zfile option \<times> fsop \<times> error option"

text \<open>
  The world outside the program: what \<open>zip.OpenReader\<close> yields, \<open>runtime.NumCPU()\<close>,
  and the answer of the operating system to a call, which may depend on everything that
  happened before.
\<close>

record uenv =
  OpenReader :: "string \<Rightarrow> error + zfile list"
  NumCPU :: nat
  sys :: "event list \<Rightarrow> fsop \<Rightarrow> error option"

text \<open>
  The sequential first loop over \<open>r.File\<close>: every directory entry passes the gate and
  is created with \<open>0o755\<close> (493); an \<open>fs.ErrExist\<close> from \<open>MkdirAll\<close> is ignored, any
  other error returns at once.
\<close>

fun mkDirs :: "uenv \<Rightarrow> string \<Rightarrow> event list \<Rightarrow> zfile list \<Rightarrow> error option \<times> event list" where
  "mkDirs env destDir tr [] = (None, tr)"
| "mkDirs env destDir tr (f # fs) =
     (if f_IsDir f then
        (let target = Join destDir (f_Name f)
         in case ensureInside destDir target of
              Some err \<Rightarrow> (Some err, tr)
            | None \<Rightarrow>
                (let mkErr = sys env tr (MkdirAll target 493);
                     tr' = (Some f, MkdirAll target 493, mkErr) # tr
                 in if mkErr \<noteq> None \<and> mkErr \<noteq> Some ErrExist then (mkErr, tr')
                    else mkDirs env destDir tr' fs))
      else mkDirs env destDir tr fs)"

text \<open>
  The goroutine started for one file entry, as a program counter. \<open>Spawned\<close>: before
  \<open>sem <- struct{}{}\<close>. \<open>AtCheck\<close> to \<open>AtChtimes\<close>: holding a permit, before the step
  of that name. \<open>Failing e\<close>: a step returned \<open>e\<close>, before \<open>setErr(e)\<close>.
  \<open>Releasing r\<close>: returning with outcome \<open>r\<close>, before the deferred \<open><-sem\<close>.
  \<open>Finished r\<close>: after \<open>wg.Done()\<close>.
\<close>

datatype pc =
    Spawned | AtCheck | AtMkdir | AtOpen | AtCreate | AtCopy | AtClose | AtChtimes
  | Failing error | Releasing "error option" | Finished "error option"

record ustate =
  pcs :: "pc list"
  sem :: nat
  errOnce :: "error option"
  trace :: "event list"

text \<open>\<open>setErr\<close>: a send on a channel of capacity one that never blocks.\<close>

definition setErr :: "error \<Rightarrow> error option \<Rightarrow> error option" where
  "setErr e slot = (case slot of None \<Rightarrow> Some e | Some first \<Rightarrow> Some first)"

text \<open>A call on the operating system by the goroutine of entry \<open>f\<close>: asked, answered, recorded.\<close>

definition call :: "uenv \<Rightarrow> zfile \<Rightarrow> fsop \<Rightarrow> ustate \<Rightarrow> error option \<times> ustate" where
  "call env f op s =
     (let r = sys env (trace s) op
      in (r, s\<lparr>trace := (Some f, op, r) # trace s\<rparr>))"

definition goto :: "nat \<Rightarrow> pc \<Rightarrow> ustate \<Rightarrow> ustate" where
  "goto i p s = s\<lparr>pcs := (pcs s)[i := p]\<rparr>"

text \<open>
  One atomic step of the goroutine of the \<open>i\<close>-th file entry \<open>f\<close>. A goroutine that
  cannot move (no permit free, or finished) leaves the state as it is.
\<close>

definition stepWorker :: "uenv \<Rightarrow> string \<Rightarrow> nat \<Rightarrow> zfile \<Rightarrow> ustate \<Rightarrow> ustate" where
  "stepWorker env destDir i f s =
     (let target = Join destDir (f_Name f)
      in case pcs s ! i of
           Spawned \<Rightarrow>
             if sem s < NumCPU env then goto i AtCheck (s\<lparr>sem := sem s + 1\<rparr>) else s
         | AtCheck \<Rightarrow>
             (case ensureInside destDir target of
                Some err \<Rightarrow> goto i (Failing err) s
              | None \<Rightarrow> goto i AtMkdir s)
         | AtMkdir \<Rightarrow>
             (case call env f (MkdirAll (Dir target) 493) s of
                (Some err, s') \<Rightarrow> goto i (Failing err) s'
              | (None, s') \<Rightarrow> goto i AtOpen s')
         | AtOpen \<Rightarrow>
             (case call env f (OpenEntry (f_Name f)) s of
                (Some err, s') \<Rightarrow> goto i (Failing err) s'
              | (None, s') \<Rightarrow> goto i AtCreate s')
         | AtCreate \<Rightarrow>
             (case call env f (OpenFile target (f_Mode f)) s of
                (Some err, s') \<Rightarrow> goto i (Failing err) s'
              | (None, s') \<Rightarrow> goto i AtCopy s')
         | AtCopy \<Rightarrow>
             (case call env f (Copy target (f_Data f)) s of
                (Some err, s') \<Rightarrow> goto i (Failing err) (snd (call env f (CloseFile target) s'))
              | (None, s') \<Rightarrow> goto i AtClose s')
         | AtClose \<Rightarrow>
             (case call env f (CloseFile target) s of
                (Some err, s') \<Rightarrow> goto i (Failing err) s'
              | (None, s') \<Rightarrow> goto i AtChtimes s')
         | AtChtimes \<Rightarrow>
             goto i (Releasing None) (snd (call env f (Chtimes target (f_Modified f)) s))
         | Failing err \<Rightarrow>
             goto i (Releasing (Some err)) (s\<lparr>errOnce := setErr err (errOnce s)\<rparr>)
         | Releasing r \<Rightarrow>
             goto i (Finished r) (s\<lparr>sem := sem s - 1\<rparr>)
         | Finished r \<Rightarrow> s)"

text \<open>
  The scheduler picks a goroutine; \<open>jobs\<close> are the file entries in the order of
  \<open>r.File\<close>, one goroutine each.
\<close>

definition step :: "uenv \<Rightarrow> string \<Rightarrow> zfile list \<Rightarrow> nat \<Rightarrow> ustate \<Rightarrow> ustate" where
  "step env destDir jobs i s =
     (if i < length jobs \<and> i < length (pcs s) then stepWorker env destDir i (jobs ! i) s else s)"

definition run :: "uenv \<Rightarrow> string \<Rightarrow> zfile list \<Rightarrow> nat list \<Rightarrow> ustate \<Rightarrow> ustate" where
  "run env destDir jobs sched s = fold (step env destDir jobs) sched s"

text \<open>
  What the caller sees when the schedule ends: the value returned, or nothing yet
  because \<open>wg.Wait()\<close> still waits for a goroutine.
\<close>

datatype outcome = Returns "error option" | Waiting

definition isFinished :: "pc \<Rightarrow> bool" where
  "isFinished p = (case p of Finished r \<Rightarrow> True | _ \<Rightarrow> False)"

definition waitAll :: "ustate \<Rightarrow> outcome" where
  "waitAll s = (if list_all isFinished (pcs s) then Returns (errOnce s) else Waiting)"

definition fileJobs :: "zfile list \<Rightarrow> zfile list" where
  "fileJobs files = filter (\<lambda>f. \<not> f_IsDir f) files"

definition spawnAll :: "zfile list \<Rightarrow> event list \<Rightarrow> ustate" where
  "spawnAll jobs tr = \<lparr>pcs = map (\<lambda>f. Spawned) jobs, sem = 0, errOnce = None, trace = tr\<rparr>"

text \<open>
  The parallel pass: one goroutine per file entry, run under the schedule from the state
  in which all are spawned.
\<close>

definition restoreFiles :: "uenv \<Rightarrow> nat list \<Rightarrow> string \<Rightarrow> zfile list \<Rightarrow> event list \<Rightarrow> ustate" where
  "restoreFiles env sched destDir files tr =
     run env destDir (fileJobs files) sched (spawnAll (fileJobs files) tr)"

text \<open>
  \<open>UnzipParallelAll(zipPath, destDir)\<close> under a schedule of the goroutines: the outcome
  and the trace of all calls made.
\<close>

definition UnzipParallelAll :: "uenv \<Rightarrow> nat list \<Rightarrow> string \<Rightarrow> string \<Rightarrow> outcome \<times> event list" where
  "UnzipParallelAll env sched zipPath destDir =
     (case OpenReader env zipPath of
        Inl err \<Rightarrow> (Returns (Some err), [])
      | Inr files \<Rightarrow>
          (let err = sys env [] (MkdirAll destDir 493);
               tr0 = [(None, MkdirAll destDir 493, err)]
           in if err \<noteq> None \<and> err \<noteq> Some ErrExist then (Returns err, tr0)
              else
                (case mkDirs env destDir tr0 files of
                   (Some err, tr1) \<Rightarrow> (Returns (Some err), tr1)
                 | (None, tr1) \<Rightarrow>
                     (let s = restoreFiles env sched destDir files tr1
                      in (waitAll s, trace s)))))"

subsection \<open>Notions used to state the properties of unpacking\<close>

text \<open>A goroutine holds a permit from its send on \<open>sem\<close> to the deferred receive.\<close>

definition holdsPermit :: "pc \<Rightarrow> bool" where
  "holdsPermit p = (case p of Spawned \<Rightarrow> False | Finished r \<Rightarrow> False | _ \<Rightarrow> True)"

text \<open>A goroutine is inside the restore steps: gate, parent directory, open, create, copy, close, time.\<close>

definition restoring :: "pc \<Rightarrow> bool" where
  "restoring p = (p \<in> {AtCheck, AtMkdir, AtOpen, AtCreate, AtCopy, AtClose, AtChtimes})"

definition permitInv :: "uenv \<Rightarrow> ustate \<Rightarrow> bool" where
  "permitInv env s = (sem s = length (filter holdsPermit (pcs s)) \<and> sem s \<le> NumCPU env)"

text \<open>The destination path of an entry, and the verdict of the gate on it.\<close>

definition target :: "string \<Rightarrow> zfile \<Rightarrow> string" where
  "target destDir f = Join destDir (f_Name f)"

definition gateOK :: "string \<Rightarrow> zfile \<Rightarrow> bool" where
  "gateOK destDir f = (ensureInside destDir (target destDir f) = None)"

text \<open>
  The calls the program may make: on the destination directory itself only its creation
  with \<open>0o755\<close>; on behalf of a directory entry only the creation of its target with
  \<open>0o755\<close>; on behalf of a file entry the creation of the target's parent with \<open>0o755\<close>
  and the calls that restore the file at its target, with the entry's own mode, bytes and
  modification time; and on behalf of an entry only when the gate accepts its target.
\<close>

definition lawful :: "string \<Rightarrow> event \<Rightarrow> bool" where
  "lawful destDir ev =
     (case ev of
        (None, op, r) \<Rightarrow> op = MkdirAll destDir 493
      | (Some f, op, r) \<Rightarrow>
          gateOK destDir f \<and>
          (if f_IsDir f then op = MkdirAll (target destDir f) 493
           else op \<in> {MkdirAll (Dir (target destDir f)) 493, OpenEntry (f_Name f),
                       OpenFile (target destDir f) (f_Mode f), Copy (target destDir f) (f_Data f),
                       CloseFile (target destDir f), Chtimes (target destDir f) (f_Modified f)}))"

definition pastGate :: "pc \<Rightarrow> bool" where
  "pastGate p = (p \<in> {AtMkdir, AtOpen, AtCreate, AtCopy, AtClose, AtChtimes})"

definition traceInv :: "string \<Rightarrow> zfile list \<Rightarrow> ustate \<Rightarrow> bool" where
  "traceInv destDir jobs s =
     (length (pcs s) = length jobs
      \<and> list_all (lawful destDir) (trace s)
      \<and> (\<forall>i < length jobs. pastGate (pcs s ! i) \<longrightarrow> gateOK destDir (jobs ! i)))"

text \<open>
  The calls that must have succeeded for the goroutine of entry \<open>f\<close> to stand at a
  program counter (latest first).
\<close>

definition restoreOps :: "string \<Rightarrow> zfile \<Rightarrow> fsop list" where
  "restoreOps destDir f =
     [CloseFile (target destDir f), Copy (target destDir f) (f_Data f),
      OpenFile (target destDir f) (f_Mode f), OpenEntry (f_Name f),
      MkdirAll (Dir (target destDir f)) 493]"

fun doneOps :: "string \<Rightarrow> zfile \<Rightarrow> pc \<Rightarrow> fsop list" where
  "doneOps destDir f AtOpen = drop 4 (restoreOps destDir f)"
| "doneOps destDir f AtCreate = drop 3 (restoreOps destDir f)"
| "doneOps destDir f AtCopy = drop 2 (restoreOps destDir f)"
| "doneOps destDir f AtClose = drop 1 (restoreOps destDir f)"
| "doneOps destDir f AtChtimes = restoreOps destDir f"
| "doneOps destDir f (Releasing None) = restoreOps destDir f"
| "doneOps destDir f (Finished None) = restoreOps destDir f"
| "doneOps destDir f p = []"

text \<open>
  Entry \<open>f\<close> is restored in a trace: its parent directory was ensured, its stream opened,
  the destination created with the entry's mode, all bytes copied and the destination
  closed, each without error, and the modification time was set or at least tried.
\<close>

definition called :: "zfile \<Rightarrow> fsop \<Rightarrow> event list \<Rightarrow> bool" where
  "called f op tr = list_ex (\<lambda>ev. fst ev = Some f \<and> fst (snd ev) = op) tr"

definition restored :: "string \<Rightarrow> zfile \<Rightarrow> event list \<Rightarrow> bool" where
  "restored destDir f tr =
     (list_all (\<lambda>op. (Some f, op, None) \<in> set tr) (restoreOps destDir f)
      \<and> called f (Chtimes (target destDir f) (f_Modified f)) tr)"

text \<open>
  The goroutine of entry \<open>f\<close> met the failure \<open>e\<close>: the gate rejected its target with
  \<open>e\<close>, or one of its calls returned \<open>e\<close>.
\<close>

definition failedWith :: "string \<Rightarrow> zfile \<Rightarrow> event list \<Rightarrow> error \<Rightarrow> bool" where
  "failedWith destDir f tr e =
     (ensureInside destDir (target destDir f) = Some e \<or> (\<exists>op. (Some f, op, Some e) \<in> set tr))"

definition hasFailed :: "pc \<Rightarrow> error \<Rightarrow> bool" where
  "hasFailed p e = (p = Releasing (Some e) \<or> p = Finished (Some e))"

definition someFailed :: "pc list \<Rightarrow> error \<Rightarrow> bool" where
  "someFailed ps e = (\<exists>i < length ps. hasFailed (ps ! i) e)"

definition workerOK :: "string \<Rightarrow> zfile \<Rightarrow> pc \<Rightarrow> event list \<Rightarrow> bool" where
  "workerOK destDir f p tr =
     (list_all (\<lambda>op. (Some f, op, None) \<in> set tr) (doneOps destDir f p)
      \<and> (pastGate p \<or> p = Releasing None \<or> p = Finished None \<longrightarrow> gateOK destDir f)
      \<and> (p = Releasing None \<or> p = Finished None \<longrightarrow>
            called f (Chtimes (target destDir f) (f_Modified f)) tr)
      \<and> (\<forall>e. p = Failing e \<or> hasFailed p e \<longrightarrow> failedWith destDir f tr e))"

definition workInv :: "string \<Rightarrow> zfile list \<Rightarrow> ustate \<Rightarrow> bool" where
  "workInv destDir jobs s =
     (length (pcs s) = length jobs
      \<and> (\<forall>i < length jobs. workerOK destDir (jobs ! i) (pcs s ! i) (trace s)))"

definition slotInv :: "zfile list \<Rightarrow> ustate \<Rightarrow> bool" where
  "slotInv jobs s =
     (length (pcs s) = length jobs
      \<and> (\<forall>i < length jobs. \<forall>e. hasFailed (pcs s ! i) e \<longrightarrow> errOnce s \<noteq> None)
      \<and> (\<forall>e. errOnce s = Some e \<longrightarrow> someFailed (pcs s) e))"

text \<open>
  The path in the file system that a call acts on (\<open>OpenEntry\<close> reads the archive), the
  calls allowed by the gate, and the permission policy of the calls.
\<close>

definition opPath :: "fsop \<Rightarrow> string option" where
  "opPath op =
     (case op of
        MkdirAll p m \<Rightarrow> Some p
      | OpenEntry n \<Rightarrow> None
      | OpenFile p m \<Rightarrow> Some p
      | Copy p d \<Rightarrow> Some p
      | CloseFile p \<Rightarrow> Some p
      | Chtimes p t \<Rightarrow> Some p)"

definition gated :: "string \<Rightarrow> event \<Rightarrow> bool" where
  "gated destDir ev =
     (case ev of
        (None, op, r) \<Rightarrow> op = MkdirAll destDir 493
      | (Some g, op, r) \<Rightarrow>
          gateOK destDir g \<and>
          opPath op \<in> {None, Some (target destDir g), Some (Dir (target destDir g))})"

definition permPolicy :: "string \<Rightarrow> event \<Rightarrow> bool" where
  "permPolicy destDir ev =
     (case ev of (who, op, r) \<Rightarrow>
        (case op of
           MkdirAll p perm \<Rightarrow> perm = 493
         | OpenFile p m \<Rightarrow>
             (case who of None \<Rightarrow> False
              | Some f \<Rightarrow> \<not> f_IsDir f \<and> p = target destDir f \<and> m = f_Mode f)
         | Chtimes p t \<Rightarrow>
             (case who of None \<Rightarrow> False
              | Some f \<Rightarrow> \<not> f_IsDir f \<and> p = target destDir f \<and> t = f_Modified f)
         | _ \<Rightarrow> (case who of None \<Rightarrow> False | Some f \<Rightarrow> \<not> f_IsDir f)))"

text \<open>
  \<open>e\<close> is the path-escape error of an entry that the gate rejects; and: no call of a
  trace returned an error.
\<close>

definition gateError :: "string \<Rightarrow> zfile list \<Rightarrow> error \<Rightarrow> bool" where
  "gateError destDir files e =
     (\<exists>g \<in> set files. \<not> gateOK destDir g
        \<and> e = ErrNew (''zip slip detected: '' @ target destDir g))"

definition noCallFailed :: "event list \<Rightarrow> bool" where
  "noCallFailed tr = list_all (\<lambda>ev. snd (snd ev) = None) tr"

text \<open>
  Every creation of a destination file in a trace comes with the successful
  \<open>MkdirAll\<close> of its parent directory, with \<open>0o755\<close>, on behalf of the same entry.
\<close>

definition isOpenFile :: "fsop \<Rightarrow> bool" where
  "isOpenFile op = (case op of OpenFile p m \<Rightarrow> True | _ \<Rightarrow> False)"

definition parentEnsured :: "string \<Rightarrow> event list \<Rightarrow> bool" where
  "parentEnsured destDir tr =
     list_all (\<lambda>ev. case fst ev of
                      None \<Rightarrow> True
                    | Some f \<Rightarrow>
                        isOpenFile (fst (snd ev)) \<longrightarrow>
                        (Some f, MkdirAll (Dir (target destDir f)) 493, None) \<in> set tr) tr"

text \<open>
  The directory entry \<open>d\<close> was created in a trace: \<open>MkdirAll\<close> was called on its target
  with \<open>0o755\<close> and returned no error, or the \<open>fs.ErrExist\<close> that the first loop ignores.
\<close>

definition dirMade :: "string \<Rightarrow> zfile \<Rightarrow> event list \<Rightarrow> bool" where
  "dirMade destDir d tr =
     ((Some d, MkdirAll (target destDir d) 493, None) \<in> set tr
      \<or> (Some d, MkdirAll (target destDir d) 493, Some ErrExist) \<in> set tr)"

text \<open>
  Goroutine \<open>i\<close> is the first to claim the error slot, with \<open>e\<close>: at some position of
  the schedule it is goroutine \<open>i\<close> that moves, it stands before \<open>setErr(e)\<close>, and the slot
  is still empty.
\<close>

definition claimsFirst :: "uenv \<Rightarrow> string \<Rightarrow> zfile list \<Rightarrow> event list \<Rightarrow> nat list \<Rightarrow> nat \<Rightarrow> error \<Rightarrow> bool" where
  "claimsFirst env destDir files tr sched i e =
     list_ex (\<lambda>k. sched ! k = i \<and> i < length (fileJobs files)
                 \<and> errOnce (restoreFiles env (take k sched) destDir files tr) = None
                 \<and> pcs (restoreFiles env (take k sched) destDir files tr) ! i = Failing e)
       [0..<length sched]"

text \<open>
  An event that no restoring goroutine made: the call on the destination itself, or a
  call on behalf of a directory entry.
\<close>

definition noRestoreCall :: "event \<Rightarrow> bool" where
  "noRestoreCall ev = (case fst ev of None \<Rightarrow> True | Some f \<Rightarrow> f_IsDir f)"

text \<open>
  A path lies at or below a root, read on the elements of the cleaned paths: the
  elements of the root, followed by elements none of which is \<open>..\<close>.
\<close>

definition below :: "string \<Rightarrow> string \<Rightarrow> bool" where
  "below root p =
     (let r = splitSep (Clean root);
          q = splitSep (Clean p)
      in take (length r) q = r \<and> ''..'' \<notin> set (drop (length r) q))"

subsection \<open>Archives to run the unpacker on\<close>

definition enoent :: error where
  "enoent = ErrSys ''no such file or directory''"

definition eacces :: error where
  "eacces = ErrSys ''permission denied''"

text \<open>
  A file entry and a directory entry of a given name, and a world in which the archive
  has the given entries, one permit is available and no call fails.
\<close>

definition exFile :: "string \<Rightarrow> string \<Rightarrow> zfile" where
  "exFile n d = \<lparr>f_Name = n, f_IsDir = False, f_Mode = 420, f_Modified = 7, f_Data = d\<rparr>"

definition exDir :: "string \<Rightarrow> zfile" where
  "exDir n = \<lparr>f_Name = n, f_IsDir = True, f_Mode = 493, f_Modified = 5, f_Data = []\<rparr>"

definition exWorld :: "zfile list \<Rightarrow> uenv" where
  "exWorld files = \<lparr>OpenReader = (\<lambda>p. Inr files), NumCPU = 1, sys = (\<lambda>tr op. None)\<rparr>"

text \<open>
  The same with two permits, and with a file system that refuses to create
  \<open>out/bad.txt\<close>.
\<close>

definition exFaulty :: "zfile list \<Rightarrow> uenv" where
  "exFaulty files =
     \<lparr>OpenReader = (\<lambda>p. Inr files), NumCPU = 2,
      sys = (\<lambda>tr op. if op = OpenFile ''out/bad.txt'' 420 then Some eacces else None)\<rparr>"

subsection \<open>Progress of the goroutines\<close>

text \<open> \<open>rank\<close> bounds the steps a goroutine still takes once it
  holds a permit; \<open>settled\<close> goroutines hold no permit. \<open>turn i\<close> lets goroutine \<open>i\<close> take
  ten steps in a row, \<open>pass n\<close> gives each of the first \<open>n\<close> goroutines its turn, and
  \<open>finishing n\<close> is two passes.
\<close>

fun rank :: "pc \<Rightarrow> nat" where
  "rank Spawned = 10"
| "rank AtCheck = 9"
| "rank AtMkdir = 8"
| "rank AtOpen = 7"
| "rank AtCreate = 6"
| "rank AtCopy = 5"
| "rank AtClose = 4"
| "rank AtChtimes = 3"
| "rank (Failing e) = 2"
| "rank (Releasing r) = 1"
| "rank (Finished r) = 0"

definition settled :: "pc \<Rightarrow> bool" where
  "settled p = (p = Spawned \<or> isFinished p)"

definition turn :: "nat \<Rightarrow> nat list" where
  "turn i = replicate 10 i"

definition pass :: "nat \<Rightarrow> nat list" where
  "pass n = concat (map turn [0..<n])"

definition finishing :: "nat \<Rightarrow> nat list" where
  "finishing n = pass n @ pass n"

section \<open>Packing: \<open>ZipParallelAll\<close>\<close>

text \<open>
  \<open>zip.FileHeader\<close> as far as the packer sets it: the name, the compression, the modification
  time and the mode; \<open>h_Size\<close> stands for what \<open>zip.FileInfoHeader\<close> fills in besides.
\<close>

datatype compression = Store | Deflate

record FileHeader =
  h_Name :: string
  h_Method :: compression
  h_Modified :: nat
  h_Mode :: nat
  h_Size :: nat

text \<open>
  What \<open>os.Stat\<close> tells: \<open>Name()\<close>, \<open>IsDir()\<close>, \<open>Mode().Perm()\<close>, the size and the
  modification time.
\<close>

record FileInfo =
  st_Name :: string
  st_IsDir :: bool
  st_Perm :: nat
  st_Size :: nat
  st_ModTime :: nat

text \<open>An entry of the archive being written: its header and the bytes streamed after it.\<close>

type_synonym zentry = "FileHeader \<times> string"

text \<open>
  The world outside the packer. \<open>p_WalkDir\<close> is the list of paths that
  \<open>filepath.WalkDir\<close> hands to the callback, or the error that stops the walk;
  \<open>p_Read p\<close> is what \<open>os.Open(p)\<close> followed by \<open>io.Copy(w, f)\<close> writes into \<open>w\<close>
  and the error it ends with; \<open>p_CreateHeader\<close> is the error of \<open>zw.CreateHeader\<close>,
  given the entries written so far; \<open>p_Now p\<close> is the reading of \<open>time.Now()\<close> taken by
  the worker that prepares \<open>p\<close>; \<open>p_Rel\<close> is the first result of \<open>filepath.Rel\<close>.
\<close>

record penv =
  p_Stat :: "string \<Rightarrow> error + FileInfo"
  p_MkdirAll :: "string \<Rightarrow> error option"
  p_WalkDir :: "string \<Rightarrow> error + string list"
  p_Create :: "string \<Rightarrow> error option"
  p_FileInfoHeader :: "FileInfo \<Rightarrow> error + FileHeader"
  p_CreateHeader :: "zentry list \<Rightarrow> FileHeader \<Rightarrow> error option"
  p_Read :: "string \<Rightarrow> string \<times> error option"
  p_Now :: "string \<Rightarrow> nat"
  p_Rel :: "string \<Rightarrow> string \<Rightarrow> string"
  p_CloseZip :: "error option"
  p_CloseOut :: "error option"

text \<open>
  The local type \<open>result\<close>. The closure \<open>write\<close> captures the path \<open>p\<close> and nothing
  else that changes, so it is represented by that path; \<open>None\<close> is \<open>nil\<close>.
\<close>

record result =
  r_idx :: int
  r_hdr :: "FileHeader option"
  r_write :: "string option"
  r_err :: "error option"

fun indexOf :: "string list \<Rightarrow> string \<Rightarrow> int" where
  "indexOf [] x = - 1"
| "indexOf (v # arr) x =
     (if v = x then 0
      else (let k = indexOf arr x in if k < 0 then - 1 else k + 1))"

definition toZipPath :: "string \<Rightarrow> string" where
  "toZipPath p = map (\<lambda>c. if c = PathSeparator then CHR ''/'' else c) p"

definition relInside :: "penv \<Rightarrow> string \<Rightarrow> string \<Rightarrow> string \<Rightarrow> string" where
  "relInside env srcRoot base full =
     (if base = [] then Base full
      else if full = srcRoot then base
      else p_Rel env (Dir srcRoot) full)"

text \<open>
  \<open>writeOne\<close> on the archive written so far. The last case calls \<open>zw.CreateHeader(r.hdr)\<close>;
  with a \<open>nil\<close> header that call panics, which no result built by a worker leads to.
\<close>

definition writeOne :: "penv \<Rightarrow> zentry list \<Rightarrow> result \<Rightarrow> error option \<times> zentry list" where
  "writeOne env zw r =
     (case (r_hdr r, r_write r) of
        (None, None) \<Rightarrow> (None, zw)
      | (Some h, None) \<Rightarrow>
          (case p_CreateHeader env zw h of
             Some err \<Rightarrow> (Some err, zw)
           | None \<Rightarrow> (None, zw @ [(h, [])]))
      | (Some h, Some p) \<Rightarrow>
          (case p_CreateHeader env zw h of
             Some err \<Rightarrow> (Some err, zw)
           | None \<Rightarrow> (let (bytes, err) = p_Read env p in (err, zw @ [(h, bytes)])))
      | (None, Some p) \<Rightarrow> (Some (ErrSys ''panic: nil pointer dereference''), zw))"

text \<open>The body of a preparing goroutine for one path \<open>p\<close> taken from \<open>jobsCh\<close>.\<close>

definition worker :: "penv \<Rightarrow> string \<Rightarrow> string \<Rightarrow> string list \<Rightarrow> string \<Rightarrow> result" where
  "worker env src baseDir paths p =
     (let idx = indexOf paths p;
          rel = relInside env src baseDir p
      in case p_Stat env p of
           Inl e \<Rightarrow> \<lparr>r_idx = idx, r_hdr = None, r_write = None, r_err = Some e\<rparr>
         | Inr st \<Rightarrow>
             if st_IsDir st then
               (if rel \<noteq> [] then
                  \<lparr>r_idx = idx,
                   r_hdr = Some \<lparr>h_Name = toZipPath rel @ ''/'', h_Method = Store,
                                 h_Modified = p_Now env p, h_Mode = 0, h_Size = 0\<rparr>,
                   r_write = None, r_err = None\<rparr>
                else \<lparr>r_idx = idx, r_hdr = None, r_write = None, r_err = None\<rparr>)
             else
               (case p_FileInfoHeader env st of
                  Inl e \<Rightarrow> \<lparr>r_idx = idx, r_hdr = None, r_write = None, r_err = Some e\<rparr>
                | Inr hdr \<Rightarrow>
                    \<lparr>r_idx = idx,
                     r_hdr = Some (hdr\<lparr>h_Name := toZipPath rel, h_Method := Deflate,
                                       h_Modified := p_Now env p, h_Mode := st_Perm st\<rparr>),
                     r_write = Some p, r_err = None\<rparr>))"

text \<open>
  The map \<open>pending\<close> is an association list: lookup, \<open>pending[k] = r\<close> and
  \<open>delete(pending, k)\<close> are \<open>map_of\<close>, \<open>AList.update\<close> and \<open>AList.delete\<close>.

  The inner loop that commits what is contiguous in \<open>pending\<close>; it occurs twice in the
  source with the same text. \<open>Inl\<close>: the function returns with this error; \<open>Inr\<close>: the
  loop breaks with these values of \<open>next\<close>, \<open>pending\<close> and the archive.
\<close>

function drain :: "penv \<Rightarrow> int \<Rightarrow> (int \<times> result) list \<Rightarrow> zentry list
    \<Rightarrow> (error \<times> zentry list) + (int \<times> (int \<times> result) list \<times> zentry list)" where
  "drain env next pending zw =
     (case map_of pending next of
        None \<Rightarrow> Inr (next, pending, zw)
      | Some r2 \<Rightarrow>
          (case r_err r2 of
             Some err \<Rightarrow> Inl (err, zw)
           | None \<Rightarrow>
               (case writeOne env zw r2 of
                  (Some err, zw') \<Rightarrow> Inl (err, zw')
                | (None, zw') \<Rightarrow> drain env (next + 1) (AList.delete next pending) zw')))"
  by pat_completeness auto
termination
proof (relation "measure (\<lambda>(env, next, pending, zw). length pending)")
  show "wf (measure (\<lambda>(env, next, pending, zw). length pending))" by simp
next
  fix env :: penv and "next" :: int and pending :: "(int \<times> result) list"
    and zw y :: "zentry list" and r2 :: result
  assume "map_of pending next = Some r2"
  then have "(next, r2) \<in> set pending" by (rule map_of_SomeD)
  then have "length (filter (\<lambda>(k, v). next \<noteq> k) pending) < length pending"
    by (intro length_filter_less[of "(next, r2)"]) auto
  then show "((env, next + 1, AList.delete next pending, y), (env, next, pending, zw))
               \<in> measure (\<lambda>(env, next, pending, zw). length pending)"
    by (simp add: AList.delete_eq)
qed

text \<open>
  The writer loop. \<open>resCh\<close> is the sequence of results still to be received; the empty
  list is the closed channel. The result is the error returned (if any) and the archive
  written up to then.
\<close>

function writerLoop :: "penv \<Rightarrow> int \<Rightarrow> (int \<times> result) list \<Rightarrow> zentry list \<Rightarrow> result list
    \<Rightarrow> error option \<times> zentry list" where
  "writerLoop env next pending zw resCh =
     (case map_of pending next of
        Some r \<Rightarrow>
          (case r_err r of
             Some err \<Rightarrow> (Some err, zw)
           | None \<Rightarrow>
               (case writeOne env zw r of
                  (Some err, zw') \<Rightarrow> (Some err, zw')
                | (None, zw') \<Rightarrow> writerLoop env (next + 1) (AList.delete next pending) zw' resCh))
      | None \<Rightarrow>
          (case resCh of
             [] \<Rightarrow>
               (case drain env next pending zw of
                  Inl (err, zw') \<Rightarrow> (Some err, zw')
                | Inr (next', pending', zw') \<Rightarrow> (None, zw'))
           | r # rest \<Rightarrow>
               if r_idx r = next then
                 (case r_err r of
                    Some err \<Rightarrow> (Some err, zw)
                  | None \<Rightarrow>
                      (case writeOne env zw r of
                         (Some err, zw') \<Rightarrow> (Some err, zw')
                       | (None, zw') \<Rightarrow>
                           (case drain env (next + 1) pending zw' of
                              Inl (err, zw'') \<Rightarrow> (Some err, zw'')
                            | Inr (next', pending', zw'') \<Rightarrow>
                                writerLoop env next' pending' zw'' rest)))
               else writerLoop env next (AList.update (r_idx r) r pending) zw rest))"
  by pat_completeness auto
termination
proof (relation "measures [\<lambda>(env, next, pending, zw, resCh). length resCh,
                           \<lambda>(env, next, pending, zw, resCh). length pending]")
  show "wf (measures [\<lambda>(env, next, pending, zw, resCh). length resCh,
                      \<lambda>(env, next, pending, zw, resCh). length pending])" by simp
next
  fix env :: penv and "next" :: int and pending :: "(int \<times> result) list"
    and zw y :: "zentry list" and resCh :: "result list" and r :: result
  assume "map_of pending next = Some r"
  then have "(next, r) \<in> set pending" by (rule map_of_SomeD)
  then have "length (filter (\<lambda>(k, v). next \<noteq> k) pending) < length pending"
    by (intro length_filter_less[of "(next, r)"]) auto
  then show "((env, next + 1, AList.delete next pending, y, resCh), (env, next, pending, zw, resCh))
       \<in> measures [\<lambda>(env, next, pending, zw, resCh). length resCh,
                    \<lambda>(env, next, pending, zw, resCh). length pending]"
    by (simp add: AList.delete_eq)
qed auto

text \<open>
  \<open>ZipParallelAll(src, zipPath)\<close>. \<open>arrival\<close> is the order in which the paths' results
  reach \<open>resCh\<close>: the feeder sends every path of \<open>paths\<close> once and a worker answers each
  with one result, so a run delivers a permutation of \<open>paths\<close>. The result is the error
  returned and the entries written into the archive file.
\<close>

definition ZipParallelAll :: "penv \<Rightarrow> string list \<Rightarrow> string \<Rightarrow> string \<Rightarrow> error option \<times> zentry list" where
  "ZipParallelAll env arrival src0 zipPath =
     (let src = Clean src0
      in case p_Stat env src of
           Inl err \<Rightarrow> (Some err, [])
         | Inr info \<Rightarrow>
             (let mkErr = p_MkdirAll env (Dir zipPath)
              in if mkErr \<noteq> None \<and> mkErr \<noteq> Some ErrExist then (mkErr, [])
                 else
                   (case p_WalkDir env src of
                      Inl err \<Rightarrow> (Some err, [])
                    | Inr walked \<Rightarrow>
                        (let paths = sort walked
                         in case p_Create env zipPath of
                              Some err \<Rightarrow> (Some err, [])
                            | None \<Rightarrow>
                                (let baseDir = (if st_IsDir info then Base src else []);
                                     resCh = map (worker env src baseDir paths) arrival
                                 in case writerLoop env 0 [] [] resCh of
                                      (Some err, zw) \<Rightarrow> (Some err, zw)
                                    | (None, zw) \<Rightarrow>
                                        (case p_CloseZip env of
                                           Some err \<Rightarrow> (Some err, zw)
                                         | None \<Rightarrow> (p_CloseOut env, zw)))))))"

subsection \<open>Notions used to state the properties of packing\<close>

text \<open>
  The reference the specification describes: the prepared entries committed one after
  the other in the order of their sequence numbers, stopping at the first entry that
  carries an error or whose writing fails.
\<close>

fun commitInWalkOrder :: "penv \<Rightarrow> zentry list \<Rightarrow> result list \<Rightarrow> error option \<times> zentry list" where
  "commitInWalkOrder env zw [] = (None, zw)"
| "commitInWalkOrder env zw (r # rs) =
     (case r_err r of
        Some err \<Rightarrow> (Some err, zw)
      | None \<Rightarrow>
          (case writeOne env zw r of
             (Some err, zw') \<Rightarrow> (Some err, zw')
           | (None, zw') \<Rightarrow> commitInWalkOrder env zw' rs))"

text \<open>What a prepared entry adds to the archive when it is written without error.\<close>

definition written :: "penv \<Rightarrow> result \<Rightarrow> zentry list" where
  "written env r =
     (case r_hdr r of
        None \<Rightarrow> []
      | Some h \<Rightarrow> [(h, case r_write r of None \<Rightarrow> [] | Some p \<Rightarrow> fst (p_Read env p))])"

text \<open>
  The state of the writer loop against the results \<open>R k\<close> of the sequence numbers
  \<open>k < N\<close>: what is held in \<open>pending\<close> and what is still to arrive (\<open>ks\<close>) are, without
  overlap, the sequence numbers from \<open>next\<close> on.
\<close>

definition winv :: "(int \<Rightarrow> result) \<Rightarrow> int \<Rightarrow> int \<Rightarrow> (int \<rightharpoonup> result) \<Rightarrow> int list \<Rightarrow> bool" where
  "winv R N n m ks =
     (n \<le> N \<and> distinct ks \<and> dom m \<inter> set ks = {} \<and> dom m \<union> set ks = {n..<N}
      \<and> (\<forall>k r. m k = Some r \<longrightarrow> r = R k))"

text \<open>
  The same pipeline with the Ordered Writer of the specification in the place of the
  writer loop: the results of the paths in walk order, committed in that order.
\<close>

definition packInWalkOrder :: "penv \<Rightarrow> string \<Rightarrow> string \<Rightarrow> error option \<times> zentry list" where
  "packInWalkOrder env src0 zipPath =
     (let src = Clean src0
      in case p_Stat env src of
           Inl err \<Rightarrow> (Some err, [])
         | Inr info \<Rightarrow>
             (let mkErr = p_MkdirAll env (Dir zipPath)
              in if mkErr \<noteq> None \<and> mkErr \<noteq> Some ErrExist then (mkErr, [])
                 else
                   (case p_WalkDir env src of
                      Inl err \<Rightarrow> (Some err, [])
                    | Inr walked \<Rightarrow>
                        (let paths = sort walked
                         in case p_Create env zipPath of
                              Some err \<Rightarrow> (Some err, [])
                            | None \<Rightarrow>
                                (let baseDir = (if st_IsDir info then Base src else [])
                                 in case commitInWalkOrder env []
                                           (map (worker env src baseDir paths) paths) of
                                      (Some err, zw) \<Rightarrow> (Some err, zw)
                                    | (None, zw) \<Rightarrow>
                                        (case p_CloseZip env of
                                           Some err \<Rightarrow> (Some err, zw)
                                         | None \<Rightarrow> (p_CloseOut env, zw)))))))"

text \<open>The prepared entries of a walk, in the order of their sequence numbers.\<close>

definition prepared :: "penv \<Rightarrow> string \<Rightarrow> string list \<Rightarrow> result list" where
  "prepared env src0 walked =
     (let src = Clean src0;
          paths = sort walked;
          baseDir = (case p_Stat env src of
                       Inr info \<Rightarrow> if st_IsDir info then Base src else []
                     | Inl err \<Rightarrow> [])
      in map (worker env src baseDir paths) paths)"

subsection \<open>A source tree to run the packer on\<close>

text \<open>
  The directory \<open>proj\<close> with the files \<open>proj/a.txt\<close> and \<open>proj/b.txt\<close>; every worker
  reads the same clock value. \<open>filepath.Rel\<close> is given where the packer asks for it here:
  relative to \<open>.\<close>, a relative path stays as it is.
\<close>

definition exStat :: "string \<Rightarrow> error + FileInfo" where
  "exStat p =
     (if p = ''proj'' then
        Inr \<lparr>st_Name = ''proj'', st_IsDir = True, st_Perm = 493, st_Size = 0, st_ModTime = 1\<rparr>
      else if p = ''proj/a.txt'' then
        Inr \<lparr>st_Name = ''a.txt'', st_IsDir = False, st_Perm = 420, st_Size = 5, st_ModTime = 2\<rparr>
      else if p = ''proj/b.txt'' then
        Inr \<lparr>st_Name = ''b.txt'', st_IsDir = False, st_Perm = 384, st_Size = 3, st_ModTime = 3\<rparr>
      else Inl enoent)"

definition exInfoHeader :: "FileInfo \<Rightarrow> error + FileHeader" where
  "exInfoHeader st =
     Inr \<lparr>h_Name = st_Name st, h_Method = Store, h_Modified = st_ModTime st,
          h_Mode = st_Perm st, h_Size = st_Size st\<rparr>"

definition exTree :: "nat \<Rightarrow> penv" where
  "exTree clock =
     \<lparr>p_Stat = exStat,
      p_MkdirAll = (\<lambda>p. None),
      p_WalkDir = (\<lambda>p. if p = ''proj'' then Inr [''proj'', ''proj/a.txt'', ''proj/b.txt'']
                         else if p = ''proj/a.txt'' then Inr [''proj/a.txt'']
                         else Inl enoent),
      p_Create = (\<lambda>p. None),
      p_FileInfoHeader = exInfoHeader,
      p_CreateHeader = (\<lambda>zw h. None),
      p_Read = (\<lambda>p. if p = ''proj/a.txt'' then (''hello'', None)
                      else if p = ''proj/b.txt'' then (''bye'', None)
                      else ([], Some enoent)),
      p_Now = (\<lambda>p. clock),
      p_Rel = (\<lambda>b t. if b = ''.'' then t else []),
      p_CloseZip = None,
      p_CloseOut = None\<rparr>"

text \<open>The same tree where \<open>proj/b.txt\<close> cannot be stat'ed (a dangling link).\<close>

definition exDangling :: penv where
  "exDangling = (exTree 100)\<lparr>p_Stat := (\<lambda>p. if p = ''proj/b.txt'' then Inl enoent else exStat p)\<rparr>"

text \<open>And where, besides, \<open>proj/a.txt\<close> can be stat'ed but not opened for reading.\<close>

definition exUnreadable :: penv where
  "exUnreadable = exDangling\<lparr>p_Read := (\<lambda>p. ([], Some eacces))\<rparr>"

section \<open>Properties of the path safety gate\<close>

text \<open>
  C7. For every destination root and candidate path, the gate returns no error exactly
  when the cleaned candidate is the cleaned root or continues the cleaned root with a
  path separator; in every other case it returns the path-escape error, whose message
  names the candidate.
\<close>

theorem ensureInside_accepts_iff:
  "(ensureInside root cand = None \<longleftrightarrow>
      (Clean cand = Clean root \<or> (\<exists>rest. Clean cand = Clean root @ PathSeparator # rest)))
   \<and> ensureInside root cand \<in> {None, Some (ErrNew (''zip slip detected: '' @ cand))}"
  by (auto simp: ensureInside_def Let_def prefix_def)

text \<open>
  The separator appended to the root keeps a sibling with a longer name out; a name that
  climbs out of the root is rejected, one that climbs and stays inside is accepted.
\<close>

lemma ensureInside_examples:
  "ensureInside ''/tmp/x'' ''/tmp/x/y'' = None"
  "ensureInside ''/tmp/x'' ''/tmp/x'' = None"
  "ensureInside ''/tmp/x'' ''/tmp/xy'' = Some (ErrNew ''zip slip detected: /tmp/xy'')"
  "ensureInside ''out'' (Join ''out'' ''../evil'') = Some (ErrNew ''zip slip detected: evil'')"
  "ensureInside ''out'' (Join ''out'' ''sub/../ok.txt'') = None"
  by code_simp+

section \<open>Properties of unpacking: the permits\<close>

lemma filter_update_count:
  "i < length xs \<Longrightarrow>
     length (filter P (xs[i := y])) + (if P (xs ! i) then 1 else 0)
       = length (filter P xs) + (if P y then 1 else 0)"
proof (induction xs arbitrary: i)
  case Nil
  then show ?case by simp
next
  case (Cons x xs)
  then show ?case by (cases i) auto
qed

lemma filter_update_same:
  "i < length xs \<Longrightarrow> P y = P (xs ! i) \<Longrightarrow> length (filter P (xs[i := y])) = length (filter P xs)"
  using filter_update_count[of i xs P y] by (simp split: if_splits)

lemma filter_update_gain:
  "i < length xs \<Longrightarrow> \<not> P (xs ! i) \<Longrightarrow> P y \<Longrightarrow>
     length (filter P (xs[i := y])) = Suc (length (filter P xs))"
  using filter_update_count[of i xs P y] by simp

lemma filter_update_lose:
  "i < length xs \<Longrightarrow> P (xs ! i) \<Longrightarrow> \<not> P y \<Longrightarrow>
     length (filter P (xs[i := y])) = length (filter P xs) - 1"
  using filter_update_count[of i xs P y] by simp

lemma holdsPermit_simps [simp]:
  "\<not> holdsPermit Spawned" "holdsPermit AtCheck" "holdsPermit AtMkdir" "holdsPermit AtOpen"
  "holdsPermit AtCreate" "holdsPermit AtCopy" "holdsPermit AtClose" "holdsPermit AtChtimes"
  "holdsPermit (Failing e)" "holdsPermit (Releasing r)" "\<not> holdsPermit (Finished r)"
  by (simp_all add: holdsPermit_def)

lemma permitInv_step:
  assumes "permitInv env s"
  shows "permitInv env (step env destDir jobs i s)"
proof (cases "i < length jobs \<and> i < length (pcs s)")
  case False
  then show ?thesis using assms by (auto simp: step_def)
next
  case True
  then have i: "i < length (pcs s)" by simp
  show ?thesis
    using assms True
    unfolding permitInv_def step_def stepWorker_def call_def goto_def Let_def
    by (cases "pcs s ! i")
       (auto simp: filter_update_same filter_update_gain filter_update_lose
             split: option.splits)
qed

lemma permitInv_run:
  "permitInv env s \<Longrightarrow> permitInv env (run env destDir jobs sched s)"
  unfolding run_def
  by (induction sched arbitrary: s) (auto intro: permitInv_step)

lemma permitInv_spawnAll: "permitInv env (spawnAll jobs tr)"
  by (simp add: permitInv_def spawnAll_def filter_map comp_def)

lemma restoring_holds: "restoring p \<Longrightarrow> holdsPermit p"
  by (auto simp: restoring_def)

section \<open>Properties of unpacking: the calls made and the outcome\<close>

lemma pastGate_simps [simp]:
  "\<not> pastGate Spawned" "\<not> pastGate AtCheck" "pastGate AtMkdir" "pastGate AtOpen"
  "pastGate AtCreate" "pastGate AtCopy" "pastGate AtClose" "pastGate AtChtimes"
  "\<not> pastGate (Failing e)" "\<not> pastGate (Releasing r)" "\<not> pastGate (Finished r)"
  by (simp_all add: pastGate_def)

lemma traceInv_step:
  assumes inv: "traceInv destDir jobs s" and files: "\<forall>f \<in> set jobs. \<not> f_IsDir f"
  shows "traceInv destDir jobs (step env destDir jobs i s)"
proof (cases "i < length jobs \<and> i < length (pcs s)")
  case False
  then show ?thesis using inv by (auto simp: step_def)
next
  case True
  then have nd: "\<not> f_IsDir (jobs ! i)" using files by simp
  show ?thesis
    using inv True nd
    unfolding traceInv_def step_def stepWorker_def call_def goto_def Let_def
    by (cases "pcs s ! i")
       (auto simp: nth_list_update lawful_def gateOK_def target_def split: option.splits)
qed

lemma traceInv_run:
  "traceInv destDir jobs s \<Longrightarrow> \<forall>f \<in> set jobs. \<not> f_IsDir f \<Longrightarrow>
     traceInv destDir jobs (run env destDir jobs sched s)"
  unfolding run_def
  by (induction sched arbitrary: s) (auto intro: traceInv_step)

lemma traceInv_spawnAll:
  "list_all (lawful destDir) tr \<Longrightarrow> traceInv destDir jobs (spawnAll jobs tr)"
  by (simp add: traceInv_def spawnAll_def)

lemma mkDirs_lawful:
  "list_all (lawful destDir) tr \<Longrightarrow> list_all (lawful destDir) (snd (mkDirs env destDir tr files))"
proof (induction files arbitrary: tr)
  case Nil
  then show ?case by simp
next
  case (Cons f fs)
  show ?case
  proof (cases "f_IsDir f")
    case False
    then show ?thesis using Cons by simp
  next
    case True
    show ?thesis
    proof (cases "ensureInside destDir (Join destDir (f_Name f))")
      case (Some e)
      then show ?thesis using True Cons.prems by simp
    next
      case None
      let ?ev = "(Some f, MkdirAll (Join destDir (f_Name f)) 493,
                  sys env tr (MkdirAll (Join destDir (f_Name f)) 493))"
      have ev: "lawful destDir ?ev"
        using True None by (simp add: lawful_def gateOK_def target_def)
      then have "list_all (lawful destDir) (?ev # tr)" using Cons.prems by simp
      from Cons.IH[OF this] ev Cons.prems show ?thesis
        using True None by (auto simp: Let_def)
    qed
  qed
qed

lemma fileJobs_files: "\<forall>f \<in> set (fileJobs files). \<not> f_IsDir f"
  by (simp add: fileJobs_def)

lemma unzip_lawful:
  "list_all (lawful destDir) (snd (UnzipParallelAll env sched zipPath destDir))"
proof (cases "OpenReader env zipPath")
  case (Inl e)
  then show ?thesis by (simp add: UnzipParallelAll_def)
next
  case (Inr files)
  let ?tr0 = "[(None, MkdirAll destDir 493, sys env [] (MkdirAll destDir 493))]"
  have l0: "list_all (lawful destDir) ?tr0" by (simp add: lawful_def)
  obtain r tr1 where mk: "mkDirs env destDir ?tr0 files = (r, tr1)" by (cases "mkDirs env destDir ?tr0 files")
  have l1: "list_all (lawful destDir) tr1"
    using mkDirs_lawful[OF l0, of env files] mk by simp
  have "traceInv destDir (fileJobs files)
          (run env destDir (fileJobs files) sched (spawnAll (fileJobs files) tr1))"
    by (rule traceInv_run[OF traceInv_spawnAll[OF l1] fileJobs_files])
  then have l2: "list_all (lawful destDir)
          (trace (run env destDir (fileJobs files) sched (spawnAll (fileJobs files) tr1)))"
    by (simp add: traceInv_def)
  show ?thesis
    using Inr l0 l1 l2 mk
    by (cases r) (auto simp: UnzipParallelAll_def restoreFiles_def Let_def)
qed

lemma hasFailed_simps [simp]:
  "\<not> hasFailed Spawned e" "\<not> hasFailed AtCheck e" "\<not> hasFailed AtMkdir e" "\<not> hasFailed AtOpen e"
  "\<not> hasFailed AtCreate e" "\<not> hasFailed AtCopy e" "\<not> hasFailed AtClose e" "\<not> hasFailed AtChtimes e"
  "\<not> hasFailed (Failing e') e" "hasFailed (Releasing r) e \<longleftrightarrow> r = Some e"
  "hasFailed (Finished r) e \<longleftrightarrow> r = Some e"
  by (auto simp: hasFailed_def)

lemma someFailed_update_keep:
  assumes "someFailed xs e" "i < length xs" "hasFailed (xs ! i) e \<longrightarrow> hasFailed y e"
  shows "someFailed (xs[i := y]) e"
proof -
  from assms(1) obtain j where j: "j < length xs" "hasFailed (xs ! j) e"
    by (auto simp: someFailed_def)
  then have "hasFailed (xs[i := y] ! j) e"
    using assms(2,3) by (cases "i = j") auto
  with j(1) show ?thesis by (auto simp: someFailed_def)
qed

lemma someFailed_update_new:
  assumes "i < length xs" "hasFailed y e"
  shows "someFailed (xs[i := y]) e"
  using assms unfolding someFailed_def by (intro exI[of _ i]) simp

lemma slotInv_step:
  assumes inv: "slotInv jobs s"
  shows "slotInv jobs (step env destDir jobs i s)"
proof (cases "i < length jobs \<and> i < length (pcs s)")
  case False
  then show ?thesis using inv by (auto simp: step_def)
next
  case True
  show ?thesis
    using inv True
    unfolding slotInv_def step_def stepWorker_def call_def goto_def Let_def setErr_def
    by (cases "pcs s ! i")
       (auto simp: nth_list_update split: option.splits
             intro: someFailed_update_keep someFailed_update_new)
qed

lemma step_frame:
  "length (pcs (step env destDir jobs i s)) = length (pcs s)"
  "j \<noteq> i \<Longrightarrow> pcs (step env destDir jobs i s) ! j = pcs s ! j"
  "set (trace s) \<subseteq> set (trace (step env destDir jobs i s))"
  unfolding step_def stepWorker_def call_def goto_def Let_def
  by (cases "pcs s ! i"; auto split: option.splits)+

lemma workerOK_mono:
  "workerOK destDir f p tr \<Longrightarrow> set tr \<subseteq> set tr' \<Longrightarrow> workerOK destDir f p tr'"
  unfolding workerOK_def failedWith_def called_def list_all_iff list_ex_iff by blast

lemma doneOps_Finished [simp]:
  "doneOps destDir f (Finished r) = doneOps destDir f (Releasing r)"
  by (cases r) simp_all

lemma workerOK_step:
  assumes "workerOK destDir (jobs ! i) (pcs s ! i) (trace s)"
    and "i < length jobs" "i < length (pcs s)"
  shows "workerOK destDir (jobs ! i) (pcs (step env destDir jobs i s) ! i)
           (trace (step env destDir jobs i s))"
  using assms
  unfolding step_def stepWorker_def call_def goto_def Let_def
  by (cases "pcs s ! i")
     (auto simp: workerOK_def restoreOps_def failedWith_def target_def gateOK_def called_def
                 list_all_iff list_ex_iff
           split: option.splits)

lemma workInv_step:
  assumes inv: "workInv destDir jobs s"
  shows "workInv destDir jobs (step env destDir jobs i s)"
proof -
  let ?s' = "step env destDir jobs i s"
  from inv have len: "length (pcs s) = length jobs"
    and ok: "\<And>j. j < length jobs \<Longrightarrow> workerOK destDir (jobs ! j) (pcs s ! j) (trace s)"
    by (auto simp: workInv_def)
  have "workerOK destDir (jobs ! j) (pcs ?s' ! j) (trace ?s')" if j: "j < length jobs" for j
  proof (cases "j = i")
    case True
    then show ?thesis using workerOK_step[OF ok[OF j]] j len by simp
  next
    case False
    then show ?thesis
      using workerOK_mono[OF ok[OF j] step_frame(3)] step_frame(2)[OF False] by simp
  qed
  then show ?thesis using len by (simp add: workInv_def step_frame(1))
qed

lemma workInv_run:
  "workInv destDir jobs s \<Longrightarrow> workInv destDir jobs (run env destDir jobs sched s)"
  unfolding run_def
  by (induction sched arbitrary: s) (auto intro: workInv_step)

lemma slotInv_run:
  "slotInv jobs s \<Longrightarrow> slotInv jobs (run env destDir jobs sched s)"
  unfolding run_def
  by (induction sched arbitrary: s) (auto intro: slotInv_step)

lemma workInv_spawnAll: "workInv destDir jobs (spawnAll jobs tr)"
  by (simp add: workInv_def workerOK_def spawnAll_def)

lemma slotInv_spawnAll: "slotInv jobs (spawnAll jobs tr)"
  by (simp add: slotInv_def spawnAll_def)

section \<open>Properties of unpacking: every goroutine can finish\<close>

lemma isFinished_simps [simp]:
  "\<not> isFinished Spawned" "\<not> isFinished AtCheck" "\<not> isFinished AtMkdir" "\<not> isFinished AtOpen"
  "\<not> isFinished AtCreate" "\<not> isFinished AtCopy" "\<not> isFinished AtClose" "\<not> isFinished AtChtimes"
  "\<not> isFinished (Failing e)" "\<not> isFinished (Releasing r)" "isFinished (Finished r)"
  by (simp_all add: isFinished_def)

lemma step_finished:
  "isFinished (pcs s ! i) \<Longrightarrow> step env destDir jobs i s = s"
  unfolding step_def stepWorker_def Let_def
  by (cases "pcs s ! i") auto

lemma step_blocked:
  "pcs s ! i = Spawned \<Longrightarrow> \<not> sem s < NumCPU env \<Longrightarrow> step env destDir jobs i s = s"
  unfolding step_def stepWorker_def Let_def by auto

lemma step_acquires:
  "pcs s ! i = Spawned \<Longrightarrow> sem s < NumCPU env \<Longrightarrow> i < length jobs \<Longrightarrow> i < length (pcs s) \<Longrightarrow>
     pcs (step env destDir jobs i s) ! i = AtCheck"
  unfolding step_def stepWorker_def goto_def Let_def by auto

lemma step_advances:
  assumes "holdsPermit (pcs s ! i)" "i < length jobs" "i < length (pcs s)"
  shows "rank (pcs (step env destDir jobs i s) ! i) < rank (pcs s ! i)
       \<and> (holdsPermit (pcs (step env destDir jobs i s) ! i)
            \<or> isFinished (pcs (step env destDir jobs i s) ! i))"
  using assms
  unfolding step_def stepWorker_def call_def goto_def Let_def
  by (cases "pcs s ! i") (auto split: option.splits)

lemma run_Cons:
  "run env destDir jobs (i # sched) s = run env destDir jobs sched (step env destDir jobs i s)"
  by (simp add: run_def)

lemma run_append:
  "run env destDir jobs (a @ b) s = run env destDir jobs b (run env destDir jobs a s)"
  by (simp add: run_def)

lemma run_frame:
  "length (pcs (run env destDir jobs (replicate k i) s)) = length (pcs s)"
  "j \<noteq> i \<Longrightarrow> pcs (run env destDir jobs (replicate k i) s) ! j = pcs s ! j"
proof (induction k arbitrary: s)
  case 0
  {
    case 1 show ?case by (simp add: run_def)
  next
    case 2 show ?case by (simp add: run_def)
  }
next
  case (Suc k)
  {
    case 1 show ?case using Suc(1) by (simp add: run_Cons step_frame(1))
  next
    case 2 then show ?case using Suc(2) by (simp add: run_Cons step_frame(2))
  }
qed

lemma holder_finishes:
  assumes "holdsPermit (pcs s ! i) \<or> isFinished (pcs s ! i)" "rank (pcs s ! i) \<le> k"
    and "i < length jobs" "i < length (pcs s)"
  shows "isFinished (pcs (run env destDir jobs (replicate k i) s) ! i)"
  using assms
proof (induction k arbitrary: s)
  case 0
  then show ?case by (cases "pcs s ! i") (auto simp: run_def)
next
  case (Suc k)
  let ?s' = "step env destDir jobs i s"
  show ?case
  proof (cases "isFinished (pcs s ! i)")
    case True
    then have "?s' = s" by (rule step_finished)
    moreover have "rank (pcs s ! i) \<le> k" using True by (cases "pcs s ! i") auto
    ultimately show ?thesis using Suc.IH[of s] True Suc.prems by (simp add: run_Cons)
  next
    case False
    with Suc.prems(1) have h: "holdsPermit (pcs s ! i)" by simp
    from step_advances[OF h Suc.prems(3,4), of env destDir]
    have a: "rank (pcs ?s' ! i) < rank (pcs s ! i)"
      and b: "holdsPermit (pcs ?s' ! i) \<or> isFinished (pcs ?s' ! i)" by auto
    have "rank (pcs ?s' ! i) \<le> k" using a Suc.prems(2) by simp
    moreover have "i < length (pcs ?s')" using Suc.prems(4) by (simp add: step_frame(1))
    ultimately show ?thesis using Suc.IH[OF b _ Suc.prems(3)] by (simp add: run_Cons)
  qed
qed

lemma rank_holder: "holdsPermit p \<Longrightarrow> rank p \<le> 9"
  by (cases p) auto

lemma blocked_stays:
  "pcs s ! i = Spawned \<Longrightarrow> \<not> sem s < NumCPU env \<Longrightarrow> run env destDir jobs (replicate k i) s = s"
  by (induction k) (simp_all add: run_def step_blocked)

lemma turn_settles:
  assumes "i < length jobs" "i < length (pcs s)"
  shows "settled (pcs (run env destDir jobs (turn i) s) ! i)"
    and "(pcs s ! i = Spawned \<longrightarrow> sem s < NumCPU env) \<Longrightarrow>
           isFinished (pcs (run env destDir jobs (turn i) s) ! i)"
proof -
  have fin: "isFinished (pcs (run env destDir jobs (turn i) s) ! i)"
    if free: "pcs s ! i = Spawned \<longrightarrow> sem s < NumCPU env"
  proof (cases "pcs s ! i = Spawned")
    case True
    let ?s' = "step env destDir jobs i s"
    from True free have "pcs ?s' ! i = AtCheck" using assms by (simp add: step_acquires)
    then have "holdsPermit (pcs ?s' ! i) \<or> isFinished (pcs ?s' ! i)" "rank (pcs ?s' ! i) \<le> 9"
      by simp_all
    moreover have "i < length (pcs ?s')" using assms(2) by (simp add: step_frame(1))
    ultimately have "isFinished (pcs (run env destDir jobs (replicate 9 i) ?s') ! i)"
      using holder_finishes assms(1) by blast
    moreover have "turn i = i # replicate 9 i" by (simp add: turn_def numeral_eq_Suc)
    ultimately show ?thesis by (simp only: run_Cons)
  next
    case False
    then have h: "holdsPermit (pcs s ! i) \<or> isFinished (pcs s ! i)"
      by (cases "pcs s ! i") auto
    moreover have "rank (pcs s ! i) \<le> 10" using False by (cases "pcs s ! i") auto
    ultimately show ?thesis unfolding turn_def using holder_finishes assms by blast
  qed
  show "settled (pcs (run env destDir jobs (turn i) s) ! i)"
  proof (cases "pcs s ! i = Spawned \<and> \<not> sem s < NumCPU env")
    case True
    then show ?thesis by (simp add: turn_def blocked_stays settled_def)
  next
    case False
    then show ?thesis using fin by (auto simp: settled_def)
  qed
  show "isFinished (pcs (run env destDir jobs (turn i) s) ! i)"
    if "pcs s ! i = Spawned \<longrightarrow> sem s < NumCPU env"
    using fin that by simp
qed


lemma run_length: "length (pcs (run env destDir jobs sched s)) = length (pcs s)"
  unfolding run_def by (induction sched arbitrary: s) (simp_all add: step_frame(1))

lemma turn_frame:
  "j \<noteq> i \<Longrightarrow> pcs (run env destDir jobs (turn i) s) ! j = pcs s ! j"
  unfolding turn_def by (rule run_frame(2))

lemma settled_no_permit: "settled p \<Longrightarrow> \<not> holdsPermit p"
  by (cases p) (auto simp: settled_def)

lemma all_settled_free:
  assumes "permitInv env s" "\<forall>j < length (pcs s). settled (pcs s ! j)"
  shows "sem s = 0"
proof -
  have "filter holdsPermit (pcs s) = []"
    using assms(2) by (auto simp: filter_empty_conv in_set_conv_nth settled_no_permit)
  with assms(1) show ?thesis by (simp add: permitInv_def)
qed

lemma turns_settle:
  assumes "length (pcs s) = length jobs" "\<forall>i \<in> set is. i < length jobs"
  shows "\<forall>j < length jobs. settled (pcs s ! j) \<or> j \<in> set is \<longrightarrow>
           settled (pcs (run env destDir jobs (concat (map turn is)) s) ! j)"
  using assms
proof (induction "is" arbitrary: s)
  case Nil
  then show ?case by (simp add: run_def)
next
  case (Cons i rest)
  let ?s1 = "run env destDir jobs (turn i) s"
  have i: "i < length jobs" "i < length (pcs s)" using Cons.prems by simp_all
  have len1: "length (pcs ?s1) = length jobs" using Cons.prems(1) by (simp add: run_length)
  have r: "\<forall>i \<in> set rest. i < length jobs" using Cons.prems(2) by simp
  note IH = Cons.IH[OF len1 r]
  have s1: "settled (pcs ?s1 ! j)" if "settled (pcs s ! j) \<or> j = i" for j
  proof (cases "j = i")
    case True
    then show ?thesis using turn_settles(1)[OF i] by simp
  next
    case False
    then show ?thesis using that by (simp add: turn_frame)
  qed
  show ?case
  proof (intro allI impI)
    fix j assume j: "j < length jobs" and c: "settled (pcs s ! j) \<or> j \<in> set (i # rest)"
    then have "settled (pcs ?s1 ! j) \<or> j \<in> set rest" using s1 by auto
    with IH j show "settled (pcs (run env destDir jobs (concat (map turn (i # rest))) s) ! j)"
      by (auto simp: run_append)
  qed
qed

lemma turns_finish:
  assumes "length (pcs s) = length jobs" "\<forall>i \<in> set is. i < length jobs"
    and "permitInv env s" "0 < NumCPU env" "\<forall>j < length jobs. settled (pcs s ! j)"
  shows "\<forall>j < length jobs. isFinished (pcs s ! j) \<or> j \<in> set is \<longrightarrow>
           isFinished (pcs (run env destDir jobs (concat (map turn is)) s) ! j)"
  using assms
proof (induction "is" arbitrary: s)
  case Nil
  then show ?case by (simp add: run_def)
next
  case (Cons i rest)
  let ?s1 = "run env destDir jobs (turn i) s"
  have i: "i < length jobs" "i < length (pcs s)" using Cons.prems by simp_all
  have len1: "length (pcs ?s1) = length jobs" using Cons.prems(1) by (simp add: run_length)
  have r: "\<forall>i \<in> set rest. i < length jobs" using Cons.prems(2) by simp
  have inv1: "permitInv env ?s1" using Cons.prems(3) by (rule permitInv_run)
  have "sem s = 0" using all_settled_free[OF Cons.prems(3)] Cons.prems(1,5) by simp
  then have free: "pcs s ! i = Spawned \<longrightarrow> sem s < NumCPU env" using Cons.prems(4) by simp
  have fi: "isFinished (pcs ?s1 ! i)" by (rule turn_settles(2)[OF i free])
  have s1: "isFinished (pcs ?s1 ! j)" if "isFinished (pcs s ! j) \<or> j = i" for j
    using that fi by (cases "j = i") (simp_all add: turn_frame)
  have set1: "\<forall>j < length jobs. settled (pcs ?s1 ! j)"
  proof (intro allI impI)
    fix j assume "j < length jobs"
    then show "settled (pcs ?s1 ! j)"
      using fi Cons.prems(5) by (cases "j = i") (simp_all add: turn_frame settled_def)
  qed
  note IH = Cons.IH[OF len1 r inv1 Cons.prems(4) set1]
  show ?case
  proof (intro allI impI)
    fix j assume j: "j < length jobs" and c: "isFinished (pcs s ! j) \<or> j \<in> set (i # rest)"
    then have "isFinished (pcs ?s1 ! j) \<or> j \<in> set rest" using s1 by auto
    with IH j show "isFinished (pcs (run env destDir jobs (concat (map turn (i # rest))) s) ! j)"
      by (auto simp: run_append)
  qed
qed

lemma finishing_finishes:
  assumes "length (pcs s) = length jobs" "permitInv env s" "0 < NumCPU env"
  shows "list_all isFinished (pcs (run env destDir jobs (finishing (length jobs)) s))"
proof -
  let ?n = "length jobs"
  let ?s1 = "run env destDir jobs (pass ?n) s"
  let ?s2 = "run env destDir jobs (pass ?n) ?s1"
  have all: "\<forall>i \<in> set [0..<?n]. i < ?n" by simp
  have set1: "\<forall>j < ?n. settled (pcs ?s1 ! j)"
    using turns_settle[OF assms(1) all, of env destDir] by (simp add: pass_def)
  have len1: "length (pcs ?s1) = ?n" using assms(1) by (simp add: run_length)
  have inv1: "permitInv env ?s1" using assms(2) by (rule permitInv_run)
  have "\<forall>j < ?n. isFinished (pcs ?s2 ! j)"
    using turns_finish[OF len1 all inv1 assms(3) set1, of destDir] by (simp add: pass_def)
  moreover have "length (pcs ?s2) = ?n" using len1 by (simp add: run_length)
  ultimately have "list_all isFinished (pcs ?s2)" by (simp add: list_all_length)
  then show ?thesis by (simp add: finishing_def run_append)
qed

lemma restoreFiles_returns:
  assumes "0 < NumCPU env"
  shows "waitAll (restoreFiles env (sched @ finishing (length (fileJobs files))) destDir files tr)
           \<noteq> Waiting"
proof -
  let ?jobs = "fileJobs files"
  let ?s = "run env destDir ?jobs sched (spawnAll ?jobs tr)"
  have len: "length (pcs ?s) = length ?jobs" by (simp add: run_length spawnAll_def)
  have inv: "permitInv env ?s" by (rule permitInv_run[OF permitInv_spawnAll])
  from finishing_finishes[OF len inv assms, of destDir]
  show ?thesis by (simp add: restoreFiles_def run_append waitAll_def)
qed

lemma unzip_returns:
  assumes "0 < NumCPU env" "OpenReader env zipPath = Inr files"
  shows "fst (UnzipParallelAll env (sched @ finishing (length (fileJobs files))) zipPath destDir)
           \<noteq> Waiting"
  using assms restoreFiles_returns[OF assms(1), of sched files destDir]
  by (auto simp: UnzipParallelAll_def Let_def split: prod.splits option.splits)

section \<open>Properties of unpacking: permissions, rejected entries, the error returned\<close>

lemma lawful_permPolicy: "lawful destDir ev \<Longrightarrow> permPolicy destDir ev"
  by (auto simp: lawful_def permPolicy_def split: prod.splits option.splits if_splits)

lemma lawful_gated: "lawful destDir ev \<Longrightarrow> gated destDir ev"
  by (auto simp: lawful_def gated_def opPath_def split: prod.splits option.splits if_splits)

lemma mkDirs_rejects:
  "f \<in> set files \<Longrightarrow> f_IsDir f \<Longrightarrow> \<not> gateOK destDir f \<Longrightarrow>
     fst (mkDirs env destDir tr files) \<noteq> None"
proof (induction files arbitrary: tr)
  case Nil
  then show ?case by simp
next
  case (Cons g gs)
  show ?case
  proof (cases "g = f")
    case True
    then show ?thesis using Cons.prems by (auto simp: gateOK_def target_def)
  next
    case False
    then have "f \<in> set gs" using Cons.prems by simp
    from Cons.IH[OF this Cons.prems(2,3)] show ?thesis
      by (auto simp: Let_def split: option.splits)
  qed
qed

lemma finished_all:
  assumes "list_all isFinished ps" "i < length ps"
  shows "\<exists>r. ps ! i = Finished r"
proof -
  from assms have "isFinished (ps ! i)" by (simp add: list_all_length)
  then show ?thesis by (cases "ps ! i") (simp_all add: isFinished_def)
qed

lemma restoreFiles_invs:
  "workInv destDir (fileJobs files) (restoreFiles env sched destDir files tr)"
  "slotInv (fileJobs files) (restoreFiles env sched destDir files tr)"
  unfolding restoreFiles_def
  by (rule workInv_run[OF workInv_spawnAll], rule slotInv_run[OF slotInv_spawnAll])

lemma rejected_file_sets_error:
  assumes f: "f \<in> set files" "\<not> f_IsDir f" "\<not> gateOK destDir f"
  shows "waitAll (restoreFiles env sched destDir files tr) \<noteq> Returns None"
proof
  let ?jobs = "fileJobs files"
  let ?s = "restoreFiles env sched destDir files tr"
  assume ret: "waitAll ?s = Returns None"
  then have fin: "list_all isFinished (pcs ?s)" and slot: "errOnce ?s = None"
    by (auto simp: waitAll_def split: if_splits)
  have w: "workInv destDir ?jobs ?s" and sl: "slotInv ?jobs ?s"
    by (rule restoreFiles_invs)+
  from f have "f \<in> set ?jobs" by (simp add: fileJobs_def)
  then obtain i where i: "i < length ?jobs" "?jobs ! i = f" by (auto simp: in_set_conv_nth)
  from w have len: "length (pcs ?s) = length ?jobs" by (simp add: workInv_def)
  with fin i obtain r where r: "pcs ?s ! i = Finished r" using finished_all by metis
  show False
  proof (cases r)
    case None
    with w i r have "gateOK destDir f" by (auto simp: workInv_def workerOK_def)
    with f show False by simp
  next
    case (Some e)
    with r have "hasFailed (pcs ?s ! i) e" by simp
    with sl i have "errOnce ?s \<noteq> None" by (auto simp: slotInv_def)
    with slot show False by simp
  qed
qed

lemma gate_error_shape:
  "ensureInside destDir (target destDir g) = Some e \<Longrightarrow> g \<in> set files \<Longrightarrow> gateError destDir files e"
  unfolding gateError_def gateOK_def
  by (rule bexI[of _ g]) (auto simp: ensureInside_def Let_def split: if_splits)

lemma mkDirs_error:
  "mkDirs env destDir tr files = (Some e, tr') \<Longrightarrow> noCallFailed tr' \<Longrightarrow> gateError destDir files e"
proof (induction files arbitrary: tr)
  case Nil
  then show ?case by simp
next
  case (Cons f fs)
  show ?case
  proof (cases "f_IsDir f")
    case False
    with Cons.prems have "mkDirs env destDir tr fs = (Some e, tr')" by simp
    from Cons.IH[OF this Cons.prems(2)] show ?thesis by (auto simp: gateError_def)
  next
    case True
    show ?thesis
    proof (cases "ensureInside destDir (Join destDir (f_Name f))")
      case (Some x)
      with True Cons.prems have "x = e" by simp
      with Some show ?thesis using gate_error_shape[of destDir f e "f # fs"] by (simp add: target_def)
    next
      case None
      let ?op = "MkdirAll (Join destDir (f_Name f)) 493"
      let ?tr = "(Some f, ?op, sys env tr ?op) # tr"
      show ?thesis
      proof (cases "sys env tr ?op \<noteq> None \<and> sys env tr ?op \<noteq> Some ErrExist")
        case True
        with \<open>f_IsDir f\<close> None Cons.prems show ?thesis
          by (auto simp: Let_def noCallFailed_def)
      next
        case False
        with \<open>f_IsDir f\<close> None Cons.prems have "mkDirs env destDir ?tr fs = (Some e, tr')"
          by (auto simp: Let_def)
        from Cons.IH[OF this Cons.prems(2)] show ?thesis by (auto simp: gateError_def)
      qed
    qed
  qed
qed

lemma restoreFiles_error:
  assumes "waitAll (restoreFiles env sched destDir files tr) = Returns (Some e)"
    and "noCallFailed (trace (restoreFiles env sched destDir files tr))"
  shows "gateError destDir files e"
proof -
  let ?jobs = "fileJobs files"
  let ?s = "restoreFiles env sched destDir files tr"
  from assms(1) have fin: "list_all isFinished (pcs ?s)" and r: "errOnce ?s = Some e"
    by (auto simp: waitAll_def split: if_splits)
  have w: "workInv destDir ?jobs ?s" and sl: "slotInv ?jobs ?s"
    by (rule restoreFiles_invs)+
  from w have len: "length (pcs ?s) = length ?jobs" by (simp add: workInv_def)
  from sl r have "someFailed (pcs ?s) e" by (simp add: slotInv_def)
  then obtain i where i: "i < length (pcs ?s)" "hasFailed (pcs ?s ! i) e"
    by (auto simp: someFailed_def)
  from w i len have "failedWith destDir (?jobs ! i) (trace ?s) e"
    by (auto simp: workInv_def workerOK_def)
  with assms(2) have g: "ensureInside destDir (target destDir (?jobs ! i)) = Some e"
    by (auto simp: failedWith_def noCallFailed_def list_all_iff)
  have "?jobs ! i \<in> set files"
    using i(1) len nth_mem[of i ?jobs] by (auto simp: fileJobs_def)
  with g show ?thesis by (rule gate_error_shape)
qed

lemma unzip_error_is_gate:
  assumes "OpenReader env zipPath = Inr files"
    and "fst (UnzipParallelAll env sched zipPath destDir) = Returns (Some e)"
    and "noCallFailed (snd (UnzipParallelAll env sched zipPath destDir))"
  shows "gateError destDir files e"
proof -
  let ?r0 = "sys env [] (MkdirAll destDir 493)"
  let ?tr0 = "[(None, MkdirAll destDir 493, ?r0)]"
  show ?thesis
  proof (cases "?r0 \<noteq> None \<and> ?r0 \<noteq> Some ErrExist")
    case True
    then show ?thesis using assms by (auto simp: UnzipParallelAll_def Let_def noCallFailed_def)
  next
    case False
    obtain r tr1 where mk: "mkDirs env destDir ?tr0 files = (r, tr1)"
      by (cases "mkDirs env destDir ?tr0 files")
    show ?thesis
    proof (cases r)
      case (Some x)
      with mk False assms have "x = e" "noCallFailed tr1"
        by (auto simp: UnzipParallelAll_def Let_def)
      with mk Some show ?thesis using mkDirs_error by blast
    next
      case None
      with mk False assms
      have "waitAll (restoreFiles env sched destDir files tr1) = Returns (Some e)"
        "noCallFailed (trace (restoreFiles env sched destDir files tr1))"
        by (auto simp: UnzipParallelAll_def Let_def)
      then show ?thesis by (rule restoreFiles_error)
    qed
  qed
qed

subsection \<open>The error slot\<close>

text \<open>
  \<open>setErr\<close> fills the slot only when it is empty, and nothing empties it before the
  function returns: the error returned is that of the goroutine that reached \<open>setErr\<close>
  first.
\<close>

lemma slot_keeps_first:
  "errOnce s = Some e \<Longrightarrow> errOnce (step env destDir jobs i s) = Some e"
  unfolding step_def stepWorker_def call_def goto_def setErr_def Let_def
  by (cases "pcs s ! i") (auto split: option.splits)

lemma slot_keeps_run:
  "errOnce s = Some e \<Longrightarrow> errOnce (run env destDir jobs sched s) = Some e"
  unfolding run_def by (induction sched arbitrary: s) (simp_all add: slot_keeps_first)

lemma slot_first_claim:
  "errOnce s = None \<Longrightarrow> pcs s ! i = Failing e \<Longrightarrow> i < length jobs \<Longrightarrow> i < length (pcs s) \<Longrightarrow>
     errOnce (step env destDir jobs i s) = Some e"
  unfolding step_def stepWorker_def goto_def setErr_def Let_def by simp

lemma restoreFiles_claim:
  assumes "sched = a @ i # b" "i < length (fileJobs files)"
    and "errOnce (restoreFiles env a destDir files tr) = None"
    and "pcs (restoreFiles env a destDir files tr) ! i = Failing e"
  shows "errOnce (restoreFiles env sched destDir files tr) = Some e"
proof -
  let ?jobs = "fileJobs files"
  let ?sa = "restoreFiles env a destDir files tr"
  have len: "length (pcs ?sa) = length ?jobs"
    by (simp add: restoreFiles_def run_length spawnAll_def)
  have "errOnce (step env destDir ?jobs i ?sa) = Some e"
    using slot_first_claim[OF assms(3,4) assms(2)] len assms(2) by simp
  then have "errOnce (run env destDir ?jobs b (step env destDir ?jobs i ?sa)) = Some e"
    by (rule slot_keeps_run)
  then show ?thesis
    unfolding assms(1) restoreFiles_def by (simp add: run_append run_Cons)
qed

lemma claimsFirst_iff:
  "claimsFirst env destDir files tr sched i e \<longleftrightarrow>
     (\<exists>a b. sched = a @ i # b \<and> i < length (fileJobs files)
        \<and> errOnce (restoreFiles env a destDir files tr) = None
        \<and> pcs (restoreFiles env a destDir files tr) ! i = Failing e)"
proof
  assume "claimsFirst env destDir files tr sched i e"
  then obtain k where k: "k < length sched" "sched ! k = i" "i < length (fileJobs files)"
      "errOnce (restoreFiles env (take k sched) destDir files tr) = None"
      "pcs (restoreFiles env (take k sched) destDir files tr) ! i = Failing e"
    by (auto simp: claimsFirst_def list_ex_iff)
  from k(1,2) have "sched = take k sched @ i # drop (Suc k) sched"
    using id_take_nth_drop[of k sched] by simp
  with k(3-5) show "\<exists>a b. sched = a @ i # b \<and> i < length (fileJobs files)
        \<and> errOnce (restoreFiles env a destDir files tr) = None
        \<and> pcs (restoreFiles env a destDir files tr) ! i = Failing e"
    by blast
next
  assume "\<exists>a b. sched = a @ i # b \<and> i < length (fileJobs files)
        \<and> errOnce (restoreFiles env a destDir files tr) = None
        \<and> pcs (restoreFiles env a destDir files tr) ! i = Failing e"
  then obtain a b where ab: "sched = a @ i # b" "i < length (fileJobs files)"
      "errOnce (restoreFiles env a destDir files tr) = None"
      "pcs (restoreFiles env a destDir files tr) ! i = Failing e"
    by blast
  have "length a < length sched" "sched ! length a = i" "take (length a) sched = a"
    using ab(1) by simp_all
  with ab(2-4) show "claimsFirst env destDir files tr sched i e"
    unfolding claimsFirst_def list_ex_iff by (intro bexI[of _ "length a"]) simp_all
qed

lemma slot_claimed_by:
  "errOnce s = None \<Longrightarrow> errOnce (step env destDir jobs i s) = Some e \<Longrightarrow>
     i < length jobs \<and> pcs s ! i = Failing e"
  unfolding step_def stepWorker_def call_def goto_def setErr_def Let_def
  by (cases "pcs s ! i") (auto split: option.splits if_splits)

lemma restoreFiles_snoc:
  "restoreFiles env (a @ [i]) destDir files tr
     = step env destDir (fileJobs files) i (restoreFiles env a destDir files tr)"
  by (simp add: restoreFiles_def run_append run_Cons run_def)

lemma restoreFiles_claimed:
  "errOnce (restoreFiles env sched destDir files tr) = Some e \<Longrightarrow>
     \<exists>a i b. sched = a @ i # b \<and> i < length (fileJobs files)
        \<and> errOnce (restoreFiles env a destDir files tr) = None
        \<and> pcs (restoreFiles env a destDir files tr) ! i = Failing e"
proof (induction sched rule: rev_induct)
  case Nil
  then show ?case by (simp add: restoreFiles_def run_def spawnAll_def)
next
  case (snoc x xs)
  let ?s = "restoreFiles env xs destDir files tr"
  show ?case
  proof (cases "errOnce ?s")
    case None
    from slot_claimed_by[OF None] snoc.prems
    have "x < length (fileJobs files) \<and> pcs ?s ! x = Failing e"
      by (simp add: restoreFiles_snoc)
    with None show ?thesis by (intro exI[of _ xs] exI[of _ x] exI[of _ "[]"]) simp
  next
    case (Some e')
    from slot_keeps_first[OF Some] snoc.prems have "e' = e"
      by (simp add: restoreFiles_snoc)
    with Some snoc.IH obtain a i b where
      "xs = a @ i # b" "i < length (fileJobs files)"
      "errOnce (restoreFiles env a destDir files tr) = None"
      "pcs (restoreFiles env a destDir files tr) ! i = Failing e"
      by blast
    then show ?thesis by (intro exI[of _ a] exI[of _ i] exI[of _ "b @ [x]"]) simp
  qed
qed

lemma restoreFiles_slot:
  "errOnce (restoreFiles env sched destDir files tr) = Some e
     \<longleftrightarrow> (\<exists>i. claimsFirst env destDir files tr sched i e)"
  unfolding claimsFirst_iff
  using restoreFiles_claimed[of env sched destDir files tr e] restoreFiles_claim[of sched _ _ _ files env destDir tr e]
  by blast

lemma hasFailed_step:
  "hasFailed (pcs s ! j) e \<Longrightarrow> hasFailed (pcs (step env destDir jobs i s) ! j) e"
proof (cases "j = i")
  case False
  assume "hasFailed (pcs s ! j) e"
  with step_frame(2)[OF False, of env destDir jobs s] show ?thesis by simp
next
  case True
  assume "hasFailed (pcs s ! j) e"
  then show ?thesis using True
    unfolding step_def stepWorker_def call_def goto_def Let_def hasFailed_def
    by (cases "pcs s ! i") (auto split: option.splits)
qed

lemma hasFailed_run:
  "hasFailed (pcs s ! j) e \<Longrightarrow> hasFailed (pcs (run env destDir jobs sched s) ! j) e"
  unfolding run_def by (induction sched arbitrary: s) (simp_all add: hasFailed_step)

lemma claimer_has_failed:
  assumes "claimsFirst env destDir files tr sched i e"
  shows "i < length (fileJobs files)
       \<and> hasFailed (pcs (restoreFiles env sched destDir files tr) ! i) e"
proof -
  let ?jobs = "fileJobs files"
  from assms obtain a b where ab: "sched = a @ i # b" "i < length ?jobs"
      "errOnce (restoreFiles env a destDir files tr) = None"
      "pcs (restoreFiles env a destDir files tr) ! i = Failing e"
    unfolding claimsFirst_iff by blast
  let ?sa = "restoreFiles env a destDir files tr"
  have len: "length (pcs ?sa) = length ?jobs"
    by (simp add: restoreFiles_def run_length spawnAll_def)
  have "pcs (step env destDir ?jobs i ?sa) ! i = Releasing (Some e)"
    using ab(2,4) len by (simp add: step_def stepWorker_def goto_def Let_def)
  then have "hasFailed (pcs (step env destDir ?jobs i ?sa) ! i) e" by simp
  then have "hasFailed (pcs (run env destDir ?jobs b (step env destDir ?jobs i ?sa)) ! i) e"
    by (rule hasFailed_run)
  then show ?thesis using ab(2) unfolding ab(1) restoreFiles_def
    by (simp add: run_append run_Cons)
qed

lemma unzip_parallel_part:
  assumes s: "s = restoreFiles env sched destDir files tr1"
    and jobs: "jobs = fileJobs files"
  shows "(\<forall>r. waitAll s = Returns r \<longrightarrow>
            list_all isFinished (pcs s)
          \<and> ((r \<noteq> None) = (\<exists>i < length jobs. \<exists>e. pcs s ! i = Finished (Some e)))
          \<and> (\<forall>e. r = Some e \<longrightarrow>
                (\<exists>i < length jobs. pcs s ! i = Finished (Some e)
                    \<and> failedWith destDir (jobs ! i) (trace s) e
                    \<and> claimsFirst env destDir files tr1 sched i e))
          \<and> (\<forall>i e. claimsFirst env destDir files tr1 sched i e \<longrightarrow> r = Some e))
       \<and> (\<forall>i < length jobs. pcs s ! i = Finished None \<longrightarrow> restored destDir (jobs ! i) (trace s))
       \<and> (0 < NumCPU env \<longrightarrow>
            waitAll (restoreFiles env (sched @ finishing (length jobs)) destDir files tr1) \<noteq> Waiting)"
proof -
  have w: "workInv destDir jobs s" and sl: "slotInv jobs s"
    unfolding s jobs by (rule restoreFiles_invs)+
  from w have len: "length (pcs s) = length jobs" by (simp add: workInv_def)
  have rest: "restored destDir (jobs ! i) (trace s)" if "i < length jobs" "pcs s ! i = Finished None" for i
    using w that by (auto simp: workInv_def workerOK_def restored_def)
  have live: "waitAll (restoreFiles env (sched @ finishing (length jobs)) destDir files tr1) \<noteq> Waiting"
    if "0 < NumCPU env"
    unfolding jobs by (rule restoreFiles_returns[OF that])
  have par: "list_all isFinished (pcs s)
          \<and> ((r \<noteq> None) = (\<exists>i < length jobs. \<exists>e. pcs s ! i = Finished (Some e)))
          \<and> (\<forall>e. r = Some e \<longrightarrow>
                (\<exists>i < length jobs. pcs s ! i = Finished (Some e)
                    \<and> failedWith destDir (jobs ! i) (trace s) e
                    \<and> claimsFirst env destDir files tr1 sched i e))
          \<and> (\<forall>i e. claimsFirst env destDir files tr1 sched i e \<longrightarrow> r = Some e)"
    if ret: "waitAll s = Returns r" for r
  proof -
    from ret have fin: "list_all isFinished (pcs s)" and r: "r = errOnce s"
      by (auto simp: waitAll_def split: if_splits)
    have first: "r = Some e" if "claimsFirst env destDir files tr1 sched i e" for i e
      using that r restoreFiles_slot[of env sched destDir files tr1 e] s by auto
    have claimed: "\<exists>i < length jobs. pcs s ! i = Finished (Some e)
                    \<and> failedWith destDir (jobs ! i) (trace s) e
                    \<and> claimsFirst env destDir files tr1 sched i e"
      if e: "r = Some e" for e
    proof -
      from e r s obtain i where c: "claimsFirst env destDir files tr1 sched i e"
        using restoreFiles_slot[of env sched destDir files tr1 e] by auto
      from claimer_has_failed[OF c] have i: "i < length jobs" "hasFailed (pcs s ! i) e"
        by (simp_all add: s jobs)
      from i(1) len have "i < length (pcs s)" by simp
      from finished_all[OF fin this] i(2) have pc: "pcs s ! i = Finished (Some e)" by auto
      from w i have "failedWith destDir (jobs ! i) (trace s) e"
        by (auto simp: workInv_def workerOK_def)
      with pc i(1) c show ?thesis by blast
    qed
    have conv: "r \<noteq> None" if "i < length jobs" "pcs s ! i = Finished (Some e)" for i e
    proof -
      from that have "hasFailed (pcs s ! i) e" by simp
      with sl that(1) r show ?thesis by (auto simp: slotInv_def)
    qed
    have iff: "(r \<noteq> None) = (\<exists>i < length jobs. \<exists>e. pcs s ! i = Finished (Some e))"
    proof (cases r)
      case None
      with conv show ?thesis by blast
    next
      case (Some e)
      with claimed[OF Some] show ?thesis by blast
    qed
    from fin iff claimed first show ?thesis by blast
  qed
  from par rest live show ?thesis by blast
qed

subsection \<open>The directories that are created\<close>

lemma mkDirs_noRestoreCall:
  "list_all noRestoreCall tr \<Longrightarrow> list_all noRestoreCall (snd (mkDirs env destDir tr files))"
  by (induction files arbitrary: tr) (auto simp: Let_def noRestoreCall_def split: option.splits)

lemma mkDirs_grows: "set tr \<subseteq> set (snd (mkDirs env destDir tr files))"
proof (induction files arbitrary: tr)
  case Nil
  then show ?case by simp
next
  case (Cons f fs)
  show ?case
  proof (cases "f_IsDir f \<and> ensureInside destDir (Join destDir (f_Name f)) = None")
    case False
    then show ?thesis using Cons.IH[of tr] by (auto split: option.splits)
  next
    case True
    let ?ev = "(Some f, MkdirAll (Join destDir (f_Name f)) 493,
                sys env tr (MkdirAll (Join destDir (f_Name f)) 493))"
    from Cons.IH[of "?ev # tr"] True show ?thesis by (auto simp: Let_def)
  qed
qed

lemma mkDirs_creates:
  assumes "mkDirs env destDir tr files = (None, tr1)" "d \<in> set files" "f_IsDir d"
  shows "(Some d, MkdirAll (target destDir d) 493, None) \<in> set tr1
       \<or> (Some d, MkdirAll (target destDir d) 493, Some ErrExist) \<in> set tr1"
  using assms
proof (induction files arbitrary: tr)
  case Nil
  then show ?case by simp
next
  case (Cons f fs)
  show ?case
  proof (cases "f_IsDir f")
    case False
    with Cons.prems have "mkDirs env destDir tr fs = (None, tr1)" "d \<in> set fs" by auto
    from Cons.IH[OF this Cons.prems(3)] show ?thesis .
  next
    case True
    let ?op = "MkdirAll (Join destDir (f_Name f)) 493"
    let ?ev = "(Some f, ?op, sys env tr ?op)"
    from True Cons.prems(1) have g: "ensureInside destDir (Join destDir (f_Name f)) = None"
      by (cases "ensureInside destDir (Join destDir (f_Name f))") (auto simp: Let_def)
    from True g Cons.prems(1)
    have ok: "sys env tr ?op = None \<or> sys env tr ?op = Some ErrExist"
      and rest: "mkDirs env destDir (?ev # tr) fs = (None, tr1)"
      by (auto simp: Let_def split: if_splits)
    show ?thesis
    proof (cases "d = f")
      case True
      have "?ev \<in> set tr1" using mkDirs_grows[of "?ev # tr" env destDir fs] rest by auto
      then show ?thesis using True ok by (auto simp: target_def)
    next
      case False
      with Cons.prems(2) have "d \<in> set fs" by simp
      from Cons.IH[OF rest this Cons.prems(3)] show ?thesis .
    qed
  qed
qed

lemma run_trace_grows: "set (trace s) \<subseteq> set (trace (run env destDir jobs sched s))"
  unfolding run_def
proof (induction sched arbitrary: s)
  case Nil
  then show ?case by simp
next
  case (Cons i sched)
  show ?case using Cons.IH[of "step env destDir jobs i s"] step_frame(3)[of s env destDir jobs i]
    by auto
qed

lemma restoreFiles_trace_grows:
  "set tr \<subseteq> set (trace (restoreFiles env sched destDir files tr))"
  using run_trace_grows[of "spawnAll (fileJobs files) tr" env destDir "fileJobs files" sched]
  by (simp add: restoreFiles_def spawnAll_def)


lemma parentEnsured_iff:
  "parentEnsured destDir tr \<longleftrightarrow>
     (\<forall>f p m r. (Some f, OpenFile p m, r) \<in> set tr \<longrightarrow>
        (Some f, MkdirAll (Dir (target destDir f)) 493, None) \<in> set tr)"
proof
  assume "parentEnsured destDir tr"
  then show "\<forall>f p m r. (Some f, OpenFile p m, r) \<in> set tr \<longrightarrow>
        (Some f, MkdirAll (Dir (target destDir f)) 493, None) \<in> set tr"
    by (fastforce simp: parentEnsured_def list_all_iff isOpenFile_def)
next
  assume a: "\<forall>f p m r. (Some f, OpenFile p m, r) \<in> set tr \<longrightarrow>
        (Some f, MkdirAll (Dir (target destDir f)) 493, None) \<in> set tr"
  show "parentEnsured destDir tr"
    unfolding parentEnsured_def list_all_iff
  proof
    fix ev assume ev: "ev \<in> set tr"
    obtain who op r where e: "ev = (who, op, r)" by (cases ev)
    show "case fst ev of None \<Rightarrow> True
          | Some f \<Rightarrow> isOpenFile (fst (snd ev)) \<longrightarrow>
              (Some f, MkdirAll (Dir (target destDir f)) 493, None) \<in> set tr"
      using a ev e by (cases who; cases op) (auto simp: isOpenFile_def)
  qed
qed

lemma step_new_events:
  assumes "ev \<in> set (trace (step env destDir jobs i s))" "ev \<notin> set (trace s)"
  shows "i < length jobs \<and> i < length (pcs s) \<and> fst ev = Some (jobs ! i)
       \<and> (isOpenFile (fst (snd ev)) \<longrightarrow> pcs s ! i = AtCreate)"
proof (cases "i < length jobs \<and> i < length (pcs s)")
  case False
  then show ?thesis using assms by (auto simp: step_def)
next
  case True
  show ?thesis
    using assms True
    unfolding step_def stepWorker_def call_def goto_def Let_def
    by (cases "pcs s ! i") (auto simp: isOpenFile_def split: option.splits if_splits)
qed

lemma parentEnsured_step:
  assumes "parentEnsured destDir (trace s)" "workInv destDir jobs s"
  shows "parentEnsured destDir (trace (step env destDir jobs i s))"
  unfolding parentEnsured_iff
proof (intro allI impI)
  fix f p m r
  let ?s' = "step env destDir jobs i s"
  let ?mk = "(Some f, MkdirAll (Dir (target destDir f)) 493, None)"
  assume ev: "(Some f, OpenFile p m, r) \<in> set (trace ?s')"
  have mono: "set (trace s) \<subseteq> set (trace ?s')" by (rule step_frame(3))
  show "?mk \<in> set (trace ?s')"
  proof (cases "(Some f, OpenFile p m, r) \<in> set (trace s)")
    case True
    with assms(1) have "?mk \<in> set (trace s)" unfolding parentEnsured_iff by blast
    with mono show ?thesis by blast
  next
    case False
    from step_new_events[OF ev False]
    have i: "i < length jobs" and f: "f = jobs ! i" and pc: "pcs s ! i = AtCreate"
      by (auto simp: isOpenFile_def)
    from assms(2) i have "workerOK destDir (jobs ! i) (pcs s ! i) (trace s)"
      by (simp add: workInv_def)
    with pc f have "?mk \<in> set (trace s)"
      by (simp add: workerOK_def restoreOps_def)
    with mono show ?thesis by blast
  qed
qed

lemma parentEnsured_run:
  "parentEnsured destDir (trace s) \<Longrightarrow> workInv destDir jobs s \<Longrightarrow>
     parentEnsured destDir (trace (run env destDir jobs sched s))"
  unfolding run_def
proof (induction sched arbitrary: s)
  case Nil
  then show ?case by simp
next
  case (Cons i sched)
  from Cons.IH[OF parentEnsured_step[OF Cons.prems] workInv_step[OF Cons.prems(2)]]
  show ?case by simp
qed

lemma parentEnsured_prepass:
  assumes "list_all noRestoreCall tr" "list_all (lawful destDir) tr"
  shows "parentEnsured destDir tr"
  unfolding parentEnsured_iff
proof (intro allI impI)
  fix f p m r assume ev: "(Some f, OpenFile p m, r) \<in> set tr"
  with assms(1) have "f_IsDir f" by (auto simp: list_all_iff noRestoreCall_def)
  moreover from ev assms(2) have "lawful destDir (Some f, OpenFile p m, r)"
    by (auto simp: list_all_iff)
  ultimately have False by (simp add: lawful_def)
  then show "(Some f, MkdirAll (Dir (target destDir f)) 493, None) \<in> set tr" ..
qed

lemma unzip_parentEnsured:
  "parentEnsured destDir (snd (UnzipParallelAll env sched zipPath destDir))"
proof -
  let ?U = "UnzipParallelAll env sched zipPath destDir"
  let ?r0 = "sys env [] (MkdirAll destDir 493)"
  let ?tr0 = "[(None, MkdirAll destDir 493, ?r0)]"
  have law: "list_all (lawful destDir) (snd ?U)" by (rule unzip_lawful)
  show ?thesis
  proof (cases "OpenReader env zipPath")
    case (Inl e)
    then show ?thesis by (simp add: UnzipParallelAll_def parentEnsured_def)
  next
    case (Inr files)
    have n0: "list_all noRestoreCall ?tr0" by (simp add: noRestoreCall_def)
    have l0: "list_all (lawful destDir) ?tr0" by (simp add: lawful_def)
    show ?thesis
    proof (cases "?r0 \<noteq> None \<and> ?r0 \<noteq> Some ErrExist")
      case True
      with Inr have "snd ?U = ?tr0" by (simp add: UnzipParallelAll_def Let_def)
      with parentEnsured_prepass[OF n0 l0] show ?thesis by simp
    next
      case False
      obtain r tr1 where mk: "mkDirs env destDir ?tr0 files = (r, tr1)"
        by (cases "mkDirs env destDir ?tr0 files")
      from mkDirs_noRestoreCall[OF n0, of env destDir files] mkDirs_lawful[OF l0, of env files] mk
      have "list_all noRestoreCall tr1" "list_all (lawful destDir) tr1" by simp_all
      then have p1: "parentEnsured destDir tr1" by (rule parentEnsured_prepass)
      show ?thesis
      proof (cases r)
        case (Some e)
        with Inr False mk have "snd ?U = tr1" by (auto simp: UnzipParallelAll_def Let_def)
        with p1 show ?thesis by simp
      next
        case None
        with Inr False mk have "snd ?U = trace (restoreFiles env sched destDir files tr1)"
          by (auto simp: UnzipParallelAll_def Let_def)
        moreover have "parentEnsured destDir (trace (restoreFiles env sched destDir files tr1))"
          unfolding restoreFiles_def
          by (rule parentEnsured_run[OF _ workInv_spawnAll]) (simp add: spawnAll_def p1)
        ultimately show ?thesis by simp
      qed
    qed
  qed
qed

lemma unzip_root_made:
  assumes "OpenReader env zipPath = Inr files"
  shows "(None, MkdirAll destDir 493, sys env [] (MkdirAll destDir 493))
           \<in> set (snd (UnzipParallelAll env sched zipPath destDir))"
proof -
  let ?U = "UnzipParallelAll env sched zipPath destDir"
  let ?r0 = "sys env [] (MkdirAll destDir 493)"
  let ?tr0 = "[(None, MkdirAll destDir 493, ?r0)]"
  show ?thesis
  proof (cases "?r0 \<noteq> None \<and> ?r0 \<noteq> Some ErrExist")
    case True
    with assms have "snd ?U = ?tr0" by (simp add: UnzipParallelAll_def Let_def)
    then show ?thesis by simp
  next
    case False
    obtain r tr1 where mk: "mkDirs env destDir ?tr0 files = (r, tr1)"
      by (cases "mkDirs env destDir ?tr0 files")
    from mkDirs_grows[of ?tr0 env destDir files] mk
    have in1: "(None, MkdirAll destDir 493, ?r0) \<in> set tr1" by simp
    show ?thesis
    proof (cases r)
      case (Some e)
      with assms False mk have "snd ?U = tr1" by (auto simp: UnzipParallelAll_def Let_def)
      with in1 show ?thesis by simp
    next
      case None
      with assms False mk have "snd ?U = trace (restoreFiles env sched destDir files tr1)"
        by (auto simp: UnzipParallelAll_def Let_def)
      with in1 restoreFiles_trace_grows[of tr1 env sched destDir files] show ?thesis by auto
    qed
  qed
qed

lemma unzip_success_made:
  assumes rd: "OpenReader env zipPath = Inr files"
    and ok: "fst (UnzipParallelAll env sched zipPath destDir) = Returns None"
  shows "(\<forall>d \<in> set files. f_IsDir d \<longrightarrow>
            dirMade destDir d (snd (UnzipParallelAll env sched zipPath destDir)))
       \<and> (\<forall>f \<in> set files. \<not> f_IsDir f \<longrightarrow>
            restored destDir f (snd (UnzipParallelAll env sched zipPath destDir)))"
proof -
  let ?U = "UnzipParallelAll env sched zipPath destDir"
  let ?r0 = "sys env [] (MkdirAll destDir 493)"
  let ?tr0 = "[(None, MkdirAll destDir 493, ?r0)]"
  let ?jobs = "fileJobs files"
  have root: "\<not> (?r0 \<noteq> None \<and> ?r0 \<noteq> Some ErrExist)"
  proof
    assume a: "?r0 \<noteq> None \<and> ?r0 \<noteq> Some ErrExist"
    with rd have "fst ?U = Returns ?r0" by (simp add: UnzipParallelAll_def Let_def)
    with ok a show False by simp
  qed
  obtain r tr1 where mk: "mkDirs env destDir ?tr0 files = (r, tr1)"
    by (cases "mkDirs env destDir ?tr0 files")
  have r: "r = None"
    using rd ok root mk by (cases r) (auto simp: UnzipParallelAll_def Let_def)
  let ?s = "restoreFiles env sched destDir files tr1"
  from rd root mk r have U: "?U = (waitAll ?s, trace ?s)"
    by (auto simp: UnzipParallelAll_def Let_def)
  with ok have ret: "waitAll ?s = Returns None" by simp
  then have fin: "list_all isFinished (pcs ?s)" and slot: "errOnce ?s = None"
    by (auto simp: waitAll_def split: if_splits)
  have w: "workInv destDir ?jobs ?s" and sl: "slotInv ?jobs ?s"
    by (rule restoreFiles_invs)+
  from w have len: "length (pcs ?s) = length ?jobs" by (simp add: workInv_def)
  have dirs: "dirMade destDir d (snd ?U)" if d: "d \<in> set files" "f_IsDir d" for d
  proof -
    from mkDirs_creates[OF mk[unfolded r] d]
    have "dirMade destDir d tr1" by (simp add: dirMade_def)
    with restoreFiles_trace_grows[of tr1 env sched destDir files] U
    show ?thesis by (auto simp: dirMade_def)
  qed
  have fs: "restored destDir f (snd ?U)" if f: "f \<in> set files" "\<not> f_IsDir f" for f
  proof -
    from f have "f \<in> set ?jobs" by (simp add: fileJobs_def)
    then obtain i where i: "i < length ?jobs" "?jobs ! i = f" by (auto simp: in_set_conv_nth)
    with fin len obtain x where x: "pcs ?s ! i = Finished x" using finished_all by metis
    have "x = None"
    proof (cases x)
      case (Some e)
      with x have "hasFailed (pcs ?s ! i) e" by simp
      with sl i slot show ?thesis by (auto simp: slotInv_def)
    qed simp
    with w i x have "restored destDir f (trace ?s)"
      by (auto simp: workInv_def workerOK_def restored_def)
    with U show ?thesis by simp
  qed
  from dirs fs show ?thesis by blast
qed

subsection \<open>Permissions and times\<close>

text \<open>
  C10. In every run of unpacking, every \<open>MkdirAll\<close> (for the destination, for a directory
  entry and for the parent of a file entry) carries the permission bits \<open>0o755\<close>; a
  destination is opened with an entry's recorded mode, and its time set to an entry's
  recorded modification time, only on behalf of a file entry, at that entry's own target;
  on behalf of a directory entry nothing but the \<open>MkdirAll\<close> is ever called. And the
  directories are in fact created: every destination file that is created comes with the
  successful \<open>MkdirAll\<close> of its parent directory with \<open>0o755\<close>; once the archive is open
  the destination directory itself is created with \<open>0o755\<close>; and when unpacking returns
  no error, \<open>MkdirAll\<close> with \<open>0o755\<close> was called on the target of every directory entry
  (and returned no error, or the ignored \<open>fs.ErrExist\<close>), and every file entry was
  restored: its parent directory made with \<open>0o755\<close>, the file created with the entry's
  recorded mode, and its time set to the entry's recorded modification time.
\<close>

theorem unzip_dirs_0755_modes_for_files:
  "list_all (permPolicy destDir) (snd (UnzipParallelAll env sched zipPath destDir))
   \<and> parentEnsured destDir (snd (UnzipParallelAll env sched zipPath destDir))
   \<and> (\<forall>files. OpenReader env zipPath = Inr files \<longrightarrow>
        (None, MkdirAll destDir 493, sys env [] (MkdirAll destDir 493))
           \<in> set (snd (UnzipParallelAll env sched zipPath destDir))
        \<and> (fst (UnzipParallelAll env sched zipPath destDir) = Returns None \<longrightarrow>
             (\<forall>d \<in> set files. f_IsDir d \<longrightarrow>
                dirMade destDir d (snd (UnzipParallelAll env sched zipPath destDir)))
           \<and> (\<forall>f \<in> set files. \<not> f_IsDir f \<longrightarrow>
                restored destDir f (snd (UnzipParallelAll env sched zipPath destDir)))))"
proof -
  have "list_all (permPolicy destDir) (snd (UnzipParallelAll env sched zipPath destDir))"
    using unzip_lawful[of destDir env sched zipPath]
    by (auto simp: list_all_iff intro: lawful_permPolicy)
  with unzip_parentEnsured[of destDir env sched zipPath]
    unzip_root_made[of env zipPath _ destDir sched]
    unzip_success_made[of env zipPath _ sched destDir]
  show ?thesis by blast
qed

theorem unzip_dirs_0755_modes_for_files_witness:
  "(None, MkdirAll ''out'' 493, None)
      \<in> set (snd (UnzipParallelAll (exWorld [exDir ''d/'', exFile ''d/sub/a.txt'' ''hi''])
                    (replicate 10 0) ''a.zip'' ''out''))
   \<and> dirMade ''out'' (exDir ''d/'')
        (snd (UnzipParallelAll (exWorld [exDir ''d/'', exFile ''d/sub/a.txt'' ''hi''])
               (replicate 10 0) ''a.zip'' ''out''))
   \<and> restored ''out'' (exFile ''d/sub/a.txt'' ''hi'')
        (snd (UnzipParallelAll (exWorld [exDir ''d/'', exFile ''d/sub/a.txt'' ''hi''])
               (replicate 10 0) ''a.zip'' ''out''))
   \<and> target ''out'' (exDir ''d/'') = ''out/d''
   \<and> Dir (target ''out'' (exFile ''d/sub/a.txt'' ''hi'')) = ''out/d/sub''"
proof -
  let ?files = "[exDir ''d/'', exFile ''d/sub/a.txt'' ''hi'']"
  let ?U = "UnzipParallelAll (exWorld ?files) (replicate 10 0) ''a.zip'' ''out''"
  have h1: "OpenReader (exWorld ?files) ''a.zip'' = Inr ?files" by (simp add: exWorld_def)
  have h2: "fst ?U = Returns None" by code_simp
  have h3: "sys (exWorld ?files) [] (MkdirAll ''out'' 493) = None" by (simp add: exWorld_def)
  have d: "exDir ''d/'' \<in> set ?files" "f_IsDir (exDir ''d/'')" by (simp_all add: exDir_def)
  have f: "exFile ''d/sub/a.txt'' ''hi'' \<in> set ?files" "\<not> f_IsDir (exFile ''d/sub/a.txt'' ''hi'')"
    by (simp_all add: exFile_def)
  have t: "target ''out'' (exDir ''d/'') = ''out/d''"
    "Dir (target ''out'' (exFile ''d/sub/a.txt'' ''hi'')) = ''out/d/sub''"
    by code_simp+
  from unzip_dirs_0755_modes_for_files[of "''out''" "exWorld ?files" "replicate 10 0" "''a.zip''"]
    h1 h2 h3 d f t
  show ?thesis by metis
qed

subsection \<open>Entries that leave the destination root\<close>

text \<open>
  C2. The gate compares cleaned strings. For the destination root \<open>..\<close> the prefix \<open>../\<close>
  also starts the path of the root's own parent: the file entry \<open>../evil\<close>, whose name
  has a parent-directory segment, passes the gate; unpacking returns no error, calls
  \<open>MkdirAll\<close> on \<open>../..\<close> and creates, writes and closes \<open>../../evil\<close>. Neither path lies
  at or below the destination root. So the program does not return the path-escape
  error for this archive and does write outside the destination root, against what
  \<open>ensureInside\<close> is written for.
\<close>

theorem unzip_parent_root_escape:
  "''..'' \<in> set (splitSep (f_Name (exFile ''../evil'' ''x'')))
   \<and> ensureInside ''..'' (Join ''..'' (f_Name (exFile ''../evil'' ''x''))) = None
   \<and> UnzipParallelAll (exWorld [exFile ''../evil'' ''x'']) (replicate 10 0) ''a.zip'' ''..''
       = (Returns None,
          [(Some (exFile ''../evil'' ''x''), Chtimes ''../../evil'' 7, None),
           (Some (exFile ''../evil'' ''x''), CloseFile ''../../evil'', None),
           (Some (exFile ''../evil'' ''x''), Copy ''../../evil'' ''x'', None),
           (Some (exFile ''../evil'' ''x''), OpenFile ''../../evil'' 420, None),
           (Some (exFile ''../evil'' ''x''), OpenEntry ''../evil'', None),
           (Some (exFile ''../evil'' ''x''), MkdirAll ''../..'' 493, None),
           (None, MkdirAll ''..'' 493, None)])
   \<and> \<not> below ''..'' ''../../evil''
   \<and> \<not> below ''..'' ''../..''"
  by code_simp

text \<open>
  The notion of lying at or below a root, on examples.
\<close>

lemma below_examples:
  "below ''out'' ''out''" "below ''out'' ''out/sub/a.txt''" "below ''..'' ''../x''"
  "\<not> below ''out'' ''evil''" "\<not> below ''out'' ''outer/x''" "\<not> below ''out/d'' ''out''"
  by code_simp+

text \<open>
  What the gate does ensure. For every archive with an entry whose destination path (the
  root joined with the entry name, cleaned) the gate rejects, unpacking never returns
  success (and, with at least one permit, any schedule continued by letting each
  goroutine run on returns an error), and when it returns an error while no call on the
  file system or the codec failed, that error is the path-escape error of a rejected
  entry. No call is made on behalf of the rejected entry; every call made on behalf of
  any entry is made only when the gate accepts that entry's path, and acts on that path
  or on its parent directory.
\<close>

lemma unzip_rejected_entry:
  assumes "OpenReader env zipPath = Inr files" "f \<in> set files" "\<not> gateOK destDir f"
  shows "fst (UnzipParallelAll env sched zipPath destDir) \<noteq> Returns None
       \<and> (\<forall>e. fst (UnzipParallelAll env sched zipPath destDir) = Returns (Some e)
              \<and> noCallFailed (snd (UnzipParallelAll env sched zipPath destDir))
            \<longrightarrow> gateError destDir files e)
       \<and> list_all (\<lambda>ev. fst ev \<noteq> Some f) (snd (UnzipParallelAll env sched zipPath destDir))
       \<and> list_all (gated destDir) (snd (UnzipParallelAll env sched zipPath destDir))
       \<and> (0 < NumCPU env \<longrightarrow>
            (\<exists>e. fst (UnzipParallelAll env (sched @ finishing (length (fileJobs files))) zipPath destDir)
                    = Returns (Some e)))"
proof -
  let ?U = "UnzipParallelAll env sched zipPath destDir"
  let ?V = "UnzipParallelAll env (sched @ finishing (length (fileJobs files))) zipPath destDir"
  have law: "list_all (lawful destDir) (snd ?U)" by (rule unzip_lawful)
  then have g: "list_all (gated destDir) (snd ?U)"
    by (auto simp: list_all_iff intro: lawful_gated)
  have nf: "list_all (\<lambda>ev. fst ev \<noteq> Some f) (snd ?U)"
    using law assms(3) by (auto simp: list_all_iff lawful_def split: prod.splits option.splits)
  let ?tr0 = "[(None, MkdirAll destDir 493, sys env [] (MkdirAll destDir 493))]"
  have nr: "fst (UnzipParallelAll env sch zipPath destDir) \<noteq> Returns None" for sch
  proof (cases "f_IsDir f")
    case True
    from mkDirs_rejects[OF assms(2) True assms(3), of env ?tr0]
    show ?thesis using assms(1)
      by (auto simp: UnzipParallelAll_def Let_def split: prod.splits option.splits)
  next
    case False
    from rejected_file_sets_error[OF assms(2) False assms(3)]
    show ?thesis using assms(1)
      by (auto simp: UnzipParallelAll_def Let_def split: prod.splits option.splits)
  qed
  have ge: "\<forall>e. fst ?U = Returns (Some e) \<and> noCallFailed (snd ?U) \<longrightarrow> gateError destDir files e"
    using unzip_error_is_gate[OF assms(1)] by blast
  have live: "\<exists>e. fst ?V = Returns (Some e)" if "0 < NumCPU env"
  proof (cases "fst ?V")
    case (Returns r)
    with nr[of "sched @ finishing (length (fileJobs files))"] show ?thesis by (cases r) auto
  next
    case Waiting
    with unzip_returns[OF that assms(1), of sched destDir] show ?thesis by simp
  qed
  from nr[of sched] ge nf g live show ?thesis by blast
qed

lemma unzip_rejected_entry_example:
  "fst (UnzipParallelAll (exWorld [exFile ''a.txt'' ''hi'', exFile ''../evil'' ''x''])
          (replicate 10 0 @ replicate 10 1) ''a.zip'' ''out'')
     = Returns (Some (ErrNew ''zip slip detected: evil''))
   \<and> list_all (\<lambda>ev. fst ev \<noteq> Some (exFile ''../evil'' ''x''))
        (snd (UnzipParallelAll (exWorld [exFile ''a.txt'' ''hi'', exFile ''../evil'' ''x''])
               (replicate 10 0 @ replicate 10 1) ''a.zip'' ''out''))
   \<and> list_all (gated ''out'')
        (snd (UnzipParallelAll (exWorld [exFile ''a.txt'' ''hi'', exFile ''../evil'' ''x''])
               (replicate 10 0 @ replicate 10 1) ''a.zip'' ''out''))"
proof -
  let ?files = "[exFile ''a.txt'' ''hi'', exFile ''../evil'' ''x'']"
  have h1: "OpenReader (exWorld ?files) ''a.zip'' = Inr ?files" by (simp add: exWorld_def)
  have h2: "exFile ''../evil'' ''x'' \<in> set ?files" by simp
  have h3: "\<not> gateOK ''out'' (exFile ''../evil'' ''x'')" by code_simp
  have v: "fst (UnzipParallelAll (exWorld ?files) (replicate 10 0 @ replicate 10 1) ''a.zip'' ''out'')
             = Returns (Some (ErrNew ''zip slip detected: evil''))"
    by code_simp
  from unzip_rejected_entry[OF h1 h2 h3, of "replicate 10 0 @ replicate 10 1"] v
  show ?thesis by blast
qed

text \<open>
  A name with a parent-directory segment that does not leave the root is accepted:
  \<open>sub/../ok.txt\<close> is cleaned to \<open>out/ok.txt\<close> and restored there.
\<close>

lemma unzip_inner_dotdot_accepted:
  "''..'' \<in> set (splitSep (f_Name (exFile ''sub/../ok.txt'' ''hi'')))
   \<and> fst (UnzipParallelAll (exWorld [exFile ''sub/../ok.txt'' ''hi'']) (replicate 10 0) ''a.zip'' ''out'')
       = Returns None
   \<and> (Some (exFile ''sub/../ok.txt'' ''hi''), OpenFile ''out/ok.txt'' 420, None)
       \<in> set (snd (UnzipParallelAll (exWorld [exFile ''sub/../ok.txt'' ''hi'']) (replicate 10 0)
                     ''a.zip'' ''out''))"
  by code_simp

subsection \<open>The error returned\<close>

text \<open>
  C6 (amended). A failure of the sequential part is returned at once, before any
  goroutine is started: the error of \<open>zip.OpenReader\<close>; the error of \<open>MkdirAll\<close> on the
  destination unless it is \<open>fs.ErrExist\<close>; the rejection by the gate, or the error of
  \<open>MkdirAll\<close>, of a directory entry in the first loop, after which the trace holds no
  call of a restoring goroutine. When the sequential part succeeds, unpacking returns
  what the wait for the goroutines yields, and once every goroutine has finished: an
  error is returned exactly when some goroutine failed; the error returned is the failure
  that a goroutine met (the gate's rejection of its target, or the error of one of its
  calls), namely of the goroutine that was the first to claim the error slot, and whoever
  claims the empty slot first has its error returned; every file entry whose goroutine
  did not fail is restored. With at least one permit, any schedule continued by letting
  each goroutine run on does reach the point where all have finished.
\<close>

theorem unzip_error_iff_worker_failed:
  assumes U: "U = UnzipParallelAll env sched zipPath destDir"
    and r0: "r0 = sys env [] (MkdirAll destDir 493)"
    and tr0: "tr0 = [(None, MkdirAll destDir 493, r0)]"
  shows
    "(\<forall>e. OpenReader env zipPath = Inl e \<longrightarrow> U = (Returns (Some e), []))
   \<and> (\<forall>files. OpenReader env zipPath = Inr files \<and> r0 \<noteq> None \<and> r0 \<noteq> Some ErrExist \<longrightarrow>
         U = (Returns r0, tr0))
   \<and> (\<forall>files e tr1. OpenReader env zipPath = Inr files \<and> (r0 = None \<or> r0 = Some ErrExist)
           \<and> mkDirs env destDir tr0 files = (Some e, tr1) \<longrightarrow>
         U = (Returns (Some e), tr1) \<and> list_all noRestoreCall tr1)
   \<and> (\<forall>files tr1 s jobs. OpenReader env zipPath = Inr files \<and> (r0 = None \<or> r0 = Some ErrExist)
           \<and> mkDirs env destDir tr0 files = (None, tr1)
           \<and> s = restoreFiles env sched destDir files tr1 \<and> jobs = fileJobs files \<longrightarrow>
         U = (waitAll s, trace s)
       \<and> (\<forall>r. waitAll s = Returns r \<longrightarrow>
            list_all isFinished (pcs s)
          \<and> ((r \<noteq> None) = (\<exists>i < length jobs. \<exists>e. pcs s ! i = Finished (Some e)))
          \<and> (\<forall>e. r = Some e \<longrightarrow>
                (\<exists>i < length jobs. pcs s ! i = Finished (Some e)
                    \<and> failedWith destDir (jobs ! i) (trace s) e
                    \<and> claimsFirst env destDir files tr1 sched i e))
          \<and> (\<forall>i e. claimsFirst env destDir files tr1 sched i e \<longrightarrow> r = Some e))
       \<and> (\<forall>i < length jobs. pcs s ! i = Finished None \<longrightarrow> restored destDir (jobs ! i) (trace s))
       \<and> (0 < NumCPU env \<longrightarrow>
            waitAll (restoreFiles env (sched @ finishing (length jobs)) destDir files tr1) \<noteq> Waiting))"
proof (intro conjI allI impI)
  fix e assume "OpenReader env zipPath = Inl e"
  then show "U = (Returns (Some e), [])" by (simp add: U UnzipParallelAll_def)
next
  fix files assume "OpenReader env zipPath = Inr files \<and> r0 \<noteq> None \<and> r0 \<noteq> Some ErrExist"
  then show "U = (Returns r0, tr0)" by (simp add: U r0 tr0 UnzipParallelAll_def Let_def)
next
  fix files e tr1
  assume a: "OpenReader env zipPath = Inr files \<and> (r0 = None \<or> r0 = Some ErrExist)
           \<and> mkDirs env destDir tr0 files = (Some e, tr1)"
  then show "U = (Returns (Some e), tr1)"
    by (auto simp: U r0 tr0 UnzipParallelAll_def Let_def)
  have "list_all noRestoreCall tr0" by (simp add: tr0 noRestoreCall_def)
  from mkDirs_noRestoreCall[OF this, of env destDir files] a
  show "list_all noRestoreCall tr1" by simp
next
  fix files tr1 s jobs
  assume a: "OpenReader env zipPath = Inr files \<and> (r0 = None \<or> r0 = Some ErrExist)
           \<and> mkDirs env destDir tr0 files = (None, tr1)
           \<and> s = restoreFiles env sched destDir files tr1 \<and> jobs = fileJobs files"
  then have s: "s = restoreFiles env sched destDir files tr1" and jobs: "jobs = fileJobs files"
    by simp_all
  from a show "U = (waitAll s, trace s)"
    by (auto simp: U r0 tr0 UnzipParallelAll_def Let_def)
  note p = unzip_parallel_part[OF s jobs]
  { fix r assume ret: "waitAll s = Returns r"
    with p show "list_all isFinished (pcs s)" by blast
    from p ret show "(r \<noteq> None) = (\<exists>i < length jobs. \<exists>e. pcs s ! i = Finished (Some e))"
      by blast
    { fix e assume "r = Some e"
      with p ret show "\<exists>i < length jobs. pcs s ! i = Finished (Some e)
                    \<and> failedWith destDir (jobs ! i) (trace s) e
                    \<and> claimsFirst env destDir files tr1 sched i e" by blast }
    { fix i e assume "claimsFirst env destDir files tr1 sched i e"
      with p ret show "r = Some e" by blast } }
  { fix i assume "i < length jobs" "pcs s ! i = Finished None"
    with p show "restored destDir (jobs ! i) (trace s)" by blast }
  { assume "0 < NumCPU env"
    with p show "waitAll (restoreFiles env (sched @ finishing (length jobs)) destDir files tr1) \<noteq> Waiting"
      by blast }
qed

text \<open>
  Two goroutines fail in the run below: that of \<open>../evil\<close> is rejected by the gate first,
  that of \<open>bad.txt\<close> cannot create its destination later but reaches \<open>setErr\<close> first, and
  its error is the one returned; \<open>a.txt\<close> is restored. In the second archive the first
  loop rejects the directory entry \<open>../y/\<close> and that error is returned.
\<close>

theorem unzip_error_iff_worker_failed_witness:
  "UnzipParallelAll
      (exFaulty [exFile ''a.txt'' ''hi'', exFile ''../evil'' ''x'', exFile ''bad.txt'' ''y''])
      ([1, 1, 2, 2, 2, 2, 2, 2, 1, 2, 1] @ replicate 10 0) ''a.zip'' ''out''
     = (Returns (Some eacces),
        trace (restoreFiles
                 (exFaulty [exFile ''a.txt'' ''hi'', exFile ''../evil'' ''x'', exFile ''bad.txt'' ''y''])
                 ([1, 1, 2, 2, 2, 2, 2, 2, 1, 2, 1] @ replicate 10 0) ''out''
                 [exFile ''a.txt'' ''hi'', exFile ''../evil'' ''x'', exFile ''bad.txt'' ''y'']
                 [(None, MkdirAll ''out'' 493, None)]))
   \<and> pcs (restoreFiles
            (exFaulty [exFile ''a.txt'' ''hi'', exFile ''../evil'' ''x'', exFile ''bad.txt'' ''y''])
            ([1, 1, 2, 2, 2, 2, 2, 2, 1, 2, 1] @ replicate 10 0) ''out''
            [exFile ''a.txt'' ''hi'', exFile ''../evil'' ''x'', exFile ''bad.txt'' ''y'']
            [(None, MkdirAll ''out'' 493, None)])
       = [Finished None, Finished (Some (ErrNew ''zip slip detected: evil'')), Finished (Some eacces)]
   \<and> claimsFirst
        (exFaulty [exFile ''a.txt'' ''hi'', exFile ''../evil'' ''x'', exFile ''bad.txt'' ''y''])
        ''out'' [exFile ''a.txt'' ''hi'', exFile ''../evil'' ''x'', exFile ''bad.txt'' ''y'']
        [(None, MkdirAll ''out'' 493, None)] ([1, 1, 2, 2, 2, 2, 2, 2, 1, 2, 1] @ replicate 10 0) 2 eacces
   \<and> restored ''out'' (exFile ''a.txt'' ''hi'')
        (trace (restoreFiles
                 (exFaulty [exFile ''a.txt'' ''hi'', exFile ''../evil'' ''x'', exFile ''bad.txt'' ''y''])
                 ([1, 1, 2, 2, 2, 2, 2, 2, 1, 2, 1] @ replicate 10 0) ''out''
                 [exFile ''a.txt'' ''hi'', exFile ''../evil'' ''x'', exFile ''bad.txt'' ''y'']
                 [(None, MkdirAll ''out'' 493, None)]))
   \<and> UnzipParallelAll (exWorld [exDir ''../y/'', exFile ''a.txt'' ''hi'']) [0, 0] ''a.zip'' ''out''
       = (Returns (Some (ErrNew ''zip slip detected: y'')), [(None, MkdirAll ''out'' 493, None)])"
proof -
  let ?files = "[exFile ''a.txt'' ''hi'', exFile ''../evil'' ''x'', exFile ''bad.txt'' ''y'']"
  let ?env = "exFaulty ?files"
  let ?sched = "[1, 1, 2, 2, 2, 2, 2, 2, 1, 2, 1] @ replicate 10 0"
  let ?tr1 = "[(None, MkdirAll ''out'' 493, None)] :: event list"
  let ?s = "restoreFiles ?env ?sched ''out'' ?files ?tr1"
  have h1: "OpenReader ?env ''a.zip'' = Inr ?files" by (simp add: exFaulty_def)
  have h2: "sys ?env [] (MkdirAll ''out'' 493) = None" by (simp add: exFaulty_def)
  have h3: "mkDirs ?env ''out'' [(None, MkdirAll ''out'' 493, sys ?env [] (MkdirAll ''out'' 493))] ?files
              = (None, ?tr1)"
    by code_simp
  have ps: "pcs ?s = [Finished None, Finished (Some (ErrNew ''zip slip detected: evil'')),
                      Finished (Some eacces)]"
    by code_simp
  have c: "claimsFirst ?env ''out'' ?files ?tr1 ?sched 2 eacces" by code_simp
  have fin: "list_all isFinished (pcs ?s)" unfolding ps by (simp add: isFinished_def)
  then have ret: "waitAll ?s = Returns (errOnce ?s)" by (simp add: waitAll_def)
  have p0: "pcs ?s ! 0 = Finished None" unfolding ps by simp
  have j0: "fileJobs ?files ! 0 = exFile ''a.txt'' ''hi''" "0 < length (fileJobs ?files)"
    by code_simp+
  note T = unzip_error_iff_worker_failed[where env = ?env and sched = ?sched and zipPath = "''a.zip''"
              and destDir = "''out''", OF refl refl refl]
  note P = T[THEN conjunct2, THEN conjunct2, THEN conjunct2, THEN spec, THEN spec, THEN spec,
             THEN spec, THEN mp, OF conjI[OF h1 conjI[OF disjI1[OF h2] conjI[OF h3 conjI[OF refl refl]]]]]
  have u: "UnzipParallelAll ?env ?sched ''a.zip'' ''out'' = (waitAll ?s, trace ?s)"
    by (rule P[THEN conjunct1])
  note Q = P[THEN conjunct2, THEN conjunct1, THEN spec, THEN mp, OF ret]
  have e: "errOnce ?s = Some eacces"
    by (rule Q[THEN conjunct2, THEN conjunct2, THEN conjunct2, THEN spec, THEN spec, THEN mp, OF c])
  have "restored ''out'' (fileJobs ?files ! 0) (trace ?s)"
    by (rule P[THEN conjunct2, THEN conjunct2, THEN conjunct1, THEN spec, THEN mp, OF j0(2),
               THEN mp, OF p0])
  then have r: "restored ''out'' (exFile ''a.txt'' ''hi'') (trace ?s)" by (simp only: j0(1))
  have u': "UnzipParallelAll ?env ?sched ''a.zip'' ''out'' = (Returns (Some eacces), trace ?s)"
    by (simp only: u ret e)
  let ?files2 = "[exDir ''../y/'', exFile ''a.txt'' ''hi'']"
  let ?env2 = "exWorld ?files2"
  have g1: "OpenReader ?env2 ''a.zip'' = Inr ?files2" by (simp add: exWorld_def)
  have g2: "sys ?env2 [] (MkdirAll ''out'' 493) = None" by (simp add: exWorld_def)
  have g3: "mkDirs ?env2 ''out'' [(None, MkdirAll ''out'' 493, sys ?env2 [] (MkdirAll ''out'' 493))] ?files2
              = (Some (ErrNew ''zip slip detected: y''), ?tr1)"
    by code_simp
  note T2 = unzip_error_iff_worker_failed[where env = ?env2 and sched = "[0, 0]" and zipPath = "''a.zip''"
              and destDir = "''out''", OF refl refl refl]
  have seq: "UnzipParallelAll ?env2 [0, 0] ''a.zip'' ''out''
               = (Returns (Some (ErrNew ''zip slip detected: y'')), ?tr1)"
    by (rule T2[THEN conjunct2, THEN conjunct2, THEN conjunct1, THEN spec, THEN spec, THEN spec,
                THEN mp, OF conjI[OF g1 conjI[OF disjI1[OF g2] g3]], THEN conjunct1])
  show ?thesis by (intro conjI) (rule u' ps c r seq)+
qed

text \<open>
  The claim as the specification states it fails when the sequential pass over the
  directory entries returns: the error is returned although no goroutine was started,
  and the file entry \<open>a.txt\<close>, whose own target the gate accepts, is not restored.
\<close>

theorem unzip_prepass_abort_counterexample:
  "UnzipParallelAll (exWorld [exDir ''../x/'', exFile ''a.txt'' ''hi'']) (replicate 10 0) ''a.zip'' ''out''
     = (Returns (Some (ErrNew ''zip slip detected: x'')), [(None, MkdirAll ''out'' 493, None)])
   \<and> gateOK ''out'' (exFile ''a.txt'' ''hi'')
   \<and> \<not> restored ''out'' (exFile ''a.txt'' ''hi'') [(None, MkdirAll ''out'' 493, None)]"
  by code_simp
section \<open>Properties of unpacking: the permits bound the goroutines at work\<close>

text \<open>
  C8. In every state that the goroutines of the parallel pass can reach, under any
  schedule and for any number of file entries, the goroutines inside the restore steps
  are at most \<open>runtime.NumCPU()\<close>; the permits taken are exactly those of the goroutines
  between their acquire and their deferred release, and never more than the cap; and a
  goroutine that holds a permit reaches, by at most nine steps of its own and whichever
  of its steps fail, the end where it holds none.
\<close>

theorem permits_bound_restorers:
  "length (filter restoring (pcs (run env destDir jobs sched (spawnAll jobs tr)))) \<le> NumCPU env
   \<and> sem (run env destDir jobs sched (spawnAll jobs tr))
       = length (filter holdsPermit (pcs (run env destDir jobs sched (spawnAll jobs tr))))
   \<and> sem (run env destDir jobs sched (spawnAll jobs tr)) \<le> NumCPU env
   \<and> (\<forall>i < length jobs.
         holdsPermit (pcs (run env destDir jobs sched (spawnAll jobs tr)) ! i) \<longrightarrow>
         isFinished (pcs (run env destDir jobs (replicate 9 i)
                            (run env destDir jobs sched (spawnAll jobs tr))) ! i))"
proof -
  let ?s = "run env destDir jobs sched (spawnAll jobs tr)"
  have inv: "permitInv env ?s"
    by (rule permitInv_run[OF permitInv_spawnAll])
  have "length (filter restoring (pcs ?s)) \<le> length (filter holdsPermit (pcs ?s))"
  proof -
    have "filter restoring (pcs ?s) = filter restoring (filter holdsPermit (pcs ?s))"
      by (auto simp: filter_filter restoring_holds intro: filter_cong)
    then show ?thesis by (metis length_filter_le)
  qed
  with inv have bound: "length (filter restoring (pcs ?s)) \<le> NumCPU env
      \<and> sem ?s = length (filter holdsPermit (pcs ?s)) \<and> sem ?s \<le> NumCPU env"
    by (simp add: permitInv_def)
  have len: "length (pcs ?s) = length jobs" by (simp add: run_length spawnAll_def)
  have "isFinished (pcs (run env destDir jobs (replicate 9 i) ?s) ! i)"
    if "i < length jobs" "holdsPermit (pcs ?s ! i)" for i
    using holder_finishes[of ?s i 9 jobs env destDir] rank_holder[OF that(2)] that len by simp
  with bound show ?thesis by blast
qed

theorem permits_bound_restorers_witness:
  "sem (run (exWorld [exFile ''a.txt'' ''hi'', exFile ''b.txt'' ''yo'']) ''out''
          [exFile ''a.txt'' ''hi'', exFile ''b.txt'' ''yo''] [0, 1, 0, 1] (spawnAll [exFile ''a.txt'' ''hi'', exFile ''b.txt'' ''yo''] []))
     = 1
   \<and> pcs (run (exWorld [exFile ''a.txt'' ''hi'', exFile ''b.txt'' ''yo'']) ''out''
            [exFile ''a.txt'' ''hi'', exFile ''b.txt'' ''yo''] [0, 1, 0, 1] (spawnAll [exFile ''a.txt'' ''hi'', exFile ''b.txt'' ''yo''] []))
       = [AtMkdir, Spawned]
   \<and> isFinished (pcs (run (exWorld [exFile ''a.txt'' ''hi'', exFile ''b.txt'' ''yo'']) ''out''
                        [exFile ''a.txt'' ''hi'', exFile ''b.txt'' ''yo''] (replicate 9 0)
                        (run (exWorld [exFile ''a.txt'' ''hi'', exFile ''b.txt'' ''yo'']) ''out''
                           [exFile ''a.txt'' ''hi'', exFile ''b.txt'' ''yo''] [0, 1, 0, 1]
                           (spawnAll [exFile ''a.txt'' ''hi'', exFile ''b.txt'' ''yo''] []))) ! 0)"
proof -
  let ?jobs = "[exFile ''a.txt'' ''hi'', exFile ''b.txt'' ''yo'']"
  let ?s = "run (exWorld ?jobs) ''out'' ?jobs [0, 1, 0, 1] (spawnAll ?jobs [])"
  have p: "pcs ?s = [AtMkdir, Spawned]" by code_simp
  then have h: "holdsPermit (pcs ?s ! 0)" "(0::nat) < length ?jobs" by simp_all
  have c: "sem ?s = 1" by code_simp
  from permits_bound_restorers[of "exWorld ?jobs" "''out''" ?jobs "[0, 1, 0, 1]" "[]"] h
  have "isFinished (pcs (run (exWorld ?jobs) ''out'' ?jobs (replicate 9 0) ?s) ! 0)" by blast
  with p c show ?thesis by simp
qed

section \<open>Properties of packing: the writer commits in walk order\<close>

declare drain.simps [simp del] writerLoop.simps [simp del]

lemma drain_commits:
  assumes "\<forall>k r. map_of pending k = Some r \<longrightarrow> r = R k \<and> k < N" and "n \<le> N"
  shows "case drain env n pending zw of
           Inl (e, zwe) \<Rightarrow> commitInWalkOrder env zw (map R [n..N - 1]) = (Some e, zwe)
         | Inr (n', pending', zw') \<Rightarrow>
             n \<le> n' \<and> n' \<le> N
             \<and> commitInWalkOrder env zw (map R [n..N - 1]) = commitInWalkOrder env zw' (map R [n'..N - 1])
             \<and> map_of pending' = (\<lambda>k. if n \<le> k \<and> k < n' then None else map_of pending k)
             \<and> {n..<n'} \<subseteq> dom (map_of pending)
             \<and> map_of pending' n' = None"
  using assms
proof (induction env n pending zw rule: drain.induct)
  case (1 env n pending zw)
  show ?case
  proof (cases "map_of pending n")
    case None
    then show ?thesis using "1.prems" by (subst drain.simps) (auto simp: fun_eq_iff)
  next
    case (Some r2)
    with "1.prems" have r2: "r2 = R n" and nN: "n < N" by auto
    then have up: "[n..N - 1] = n # [n + 1..N - 1]" by (simp add: upto_rec1)
    show ?thesis
    proof (cases "r_err r2")
      case (Some e)
      then show ?thesis using \<open>map_of pending n = Some r2\<close> r2 up
        by (subst drain.simps) simp
    next
      case None
      obtain we zw' where w: "writeOne env zw r2 = (we, zw')" by (cases "writeOne env zw r2")
      show ?thesis
      proof (cases we)
        case (Some e)
        then show ?thesis using \<open>map_of pending n = Some r2\<close> r2 up None w
          by (subst drain.simps) simp
      next
        case wn: None
        have pre: "\<forall>k r. map_of (AList.delete n pending) k = Some r \<longrightarrow> r = R k \<and> k < N"
          using "1.prems"(1) by (auto simp: delete_conv' split: if_splits)
        have n1: "n + 1 \<le> N" using nN by simp
        note IH = "1.IH"[OF \<open>map_of pending n = Some r2\<close> None w[symmetric] wn pre n1]
        have unf: "drain env n pending zw = drain env (n + 1) (AList.delete n pending) zw'"
          using \<open>map_of pending n = Some r2\<close> None w wn by (subst drain.simps) simp
        have cm: "commitInWalkOrder env zw (map R [n..N - 1])
                    = commitInWalkOrder env zw' (map R [n + 1..N - 1])"
          using up r2 None w wn by simp
        show ?thesis
        proof (cases "drain env (n + 1) (AList.delete n pending) zw'")
          case (Inl a)
          then show ?thesis using IH unf cm by (auto split: prod.splits)
        next
          case (Inr b)
          obtain n' pending' zw'' where b: "b = (n', pending', zw'')" by (cases b)
          from IH Inr b have
            a1: "n + 1 \<le> n'" "n' \<le> N"
            and a2: "commitInWalkOrder env zw' (map R [n + 1..N - 1])
                       = commitInWalkOrder env zw'' (map R [n'..N - 1])"
            and a3: "map_of pending' = (\<lambda>k. if n + 1 \<le> k \<and> k < n' then None
                                             else map_of (AList.delete n pending) k)"
            and a4: "{n + 1..<n'} \<subseteq> dom (map_of (AList.delete n pending))"
            and a5: "map_of pending' n' = None"
            by auto
          have m: "map_of pending' = (\<lambda>k. if n \<le> k \<and> k < n' then None else map_of pending k)"
            unfolding a3 using a1(1) by (auto simp: delete_conv' fun_eq_iff)
          have d: "{n..<n'} \<subseteq> dom (map_of pending)"
          proof
            fix k assume "k \<in> {n..<n'}"
            then have "k = n \<or> k \<in> {n + 1..<n'}" by auto
            then show "k \<in> dom (map_of pending)"
              using a4 \<open>map_of pending n = Some r2\<close>
              by (auto simp: delete_conv' split: if_splits)
          qed
          show ?thesis using unf Inr b a1 a2 cm m d a5 by simp
        qed
      qed
    qed
  qed
qed



lemma writerLoop_drains_first:
  "writerLoop env n pending zw rs =
     (case drain env n pending zw of
        Inl (e, zw') \<Rightarrow> (Some e, zw')
      | Inr (n', pending', zw') \<Rightarrow> writerLoop env n' pending' zw' rs)"
proof (induction env n pending zw rule: drain.induct)
  case (1 env n pending zw)
  show ?case
  proof (cases "map_of pending n")
    case None
    then show ?thesis by (subst drain.simps) simp
  next
    case (Some r2)
    show ?thesis
    proof (cases "r_err r2")
      case (Some e)
      then show ?thesis using \<open>map_of pending n = Some r2\<close>
        by (subst writerLoop.simps, subst drain.simps) simp
    next
      case None
      obtain we zw' where w: "writeOne env zw r2 = (we, zw')" by (cases "writeOne env zw r2")
      show ?thesis
      proof (cases we)
        case (Some e)
        then show ?thesis using \<open>map_of pending n = Some r2\<close> None w
          by (subst writerLoop.simps, subst drain.simps) simp
      next
        case wn: None
        note IH = "1.IH"[OF \<open>map_of pending n = Some r2\<close> None w[symmetric] wn]
        have "writerLoop env n pending zw rs
                = writerLoop env (n + 1) (AList.delete n pending) zw' rs"
          using \<open>map_of pending n = Some r2\<close> None w wn by (subst writerLoop.simps) simp
        moreover have "drain env n pending zw = drain env (n + 1) (AList.delete n pending) zw'"
          using \<open>map_of pending n = Some r2\<close> None w wn by (subst drain.simps) simp
        ultimately show ?thesis using IH by simp
      qed
    qed
  qed
qed

lemma writerLoop_idle_nil:
  "map_of pending n = None \<Longrightarrow> writerLoop env n pending zw [] = (None, zw)"
  by (subst writerLoop.simps, subst drain.simps) simp

lemma writerLoop_idle_cons:
  "map_of pending n = None \<Longrightarrow>
     writerLoop env n pending zw (r # rest) =
       (if r_idx r = n then
          (case r_err r of
             Some err \<Rightarrow> (Some err, zw)
           | None \<Rightarrow>
               (case writeOne env zw r of
                  (Some err, zw') \<Rightarrow> (Some err, zw')
                | (None, zw') \<Rightarrow>
                    (case drain env (n + 1) pending zw' of
                       Inl (err, zw'') \<Rightarrow> (Some err, zw'')
                     | Inr (n', pending', zw'') \<Rightarrow> writerLoop env n' pending' zw'' rest)))
        else writerLoop env n (AList.update (r_idx r) r pending) zw rest)"
  by (subst writerLoop.simps) simp

lemma winv_keys:
  "winv R N n m ks \<Longrightarrow> m k = Some r \<Longrightarrow> r = R k \<and> k < N \<and> n \<le> k"
  unfolding winv_def by (metis Un_iff atLeastLessThan_iff domI)

lemma winv_after_drain:
  assumes "winv R N n m ks" "n \<le> n'" "n' \<le> N" "{n..<n'} \<subseteq> dom m"
    and "m' = (\<lambda>k. if n \<le> k \<and> k < n' then None else m k)"
  shows "winv R N n' m' ks"
proof -
  from assms(1) have d: "distinct ks" and i: "dom m \<inter> set ks = {}"
    and u: "dom m \<union> set ks = {n..<N}" and r: "\<forall>k r. m k = Some r \<longrightarrow> r = R k"
    by (auto simp: winv_def)
  have dm: "dom m' = dom m - {n..<n'}"
    unfolding assms(5) by (auto simp: dom_def)
  have "dom m' \<inter> set ks = {}" using i dm by auto
  moreover have "dom m' \<union> set ks = {n'..<N}"
  proof -
    have "set ks \<inter> {n..<n'} = {}" using i assms(4) by fastforce
    then have "dom m' \<union> set ks = (dom m \<union> set ks) - {n..<n'}" using dm by auto
    also have "\<dots> = {n'..<N}" using u assms(2,3) by auto
    finally show ?thesis .
  qed
  moreover have "\<forall>k r. m' k = Some r \<longrightarrow> r = R k"
    using r unfolding assms(5) by (auto split: if_splits)
  ultimately show ?thesis using d assms(3) by (simp add: winv_def)
qed


lemma writerLoop_commits:
  assumes "winv R N n (map_of pending) ks" and "\<forall>k. n \<le> k \<and> k < N \<longrightarrow> r_idx (R k) = k"
  shows "writerLoop env n pending zw (map R ks) = commitInWalkOrder env zw (map R [n..N - 1])"
  using assms
proof (induction ks arbitrary: n pending zw)
  case Nil
  have pre: "\<forall>k r. map_of pending k = Some r \<longrightarrow> r = R k \<and> k < N"
    using winv_keys[OF Nil.prems(1)] by blast
  have nN: "n \<le> N" using Nil.prems(1) by (simp add: winv_def)
  note dc = drain_commits[OF pre nN, of env zw]
  show ?case
  proof (cases "drain env n pending zw")
    case (Inl a)
    then show ?thesis using dc by (subst writerLoop_drains_first) (auto split: prod.splits)
  next
    case (Inr b)
    obtain n' pending' zw' where b: "b = (n', pending', zw')" by (cases b)
    from dc Inr b have a: "n \<le> n'" "n' \<le> N"
      "commitInWalkOrder env zw (map R [n..N - 1]) = commitInWalkOrder env zw' (map R [n'..N - 1])"
      "map_of pending' = (\<lambda>k. if n \<le> k \<and> k < n' then None else map_of pending k)"
      "{n..<n'} \<subseteq> dom (map_of pending)" "map_of pending' n' = None"
      by auto
    have inv': "winv R N n' (map_of pending') []"
      by (rule winv_after_drain[OF Nil.prems(1) a(1,2,5,4)])
    then have dm: "dom (map_of pending') = {n'..<N}" by (simp add: winv_def)
    have "n' = N"
    proof (rule ccontr)
      assume "n' \<noteq> N"
      with a(2) have "n' \<in> {n'..<N}" by simp
      with dm have "n' \<in> dom (map_of pending')" by simp
      with a(6) show False by auto
    qed
    then have "commitInWalkOrder env zw' (map R [n'..N - 1]) = (None, zw')" by simp
    moreover have "writerLoop env n pending zw (map R []) = (None, zw')"
      using Inr b a(6) by (subst writerLoop_drains_first) (simp add: writerLoop_idle_nil)
    ultimately show ?thesis using a(3) by simp
  qed
next
  case (Cons k ks)
  have pre: "\<forall>k r. map_of pending k = Some r \<longrightarrow> r = R k \<and> k < N"
    using winv_keys[OF Cons.prems(1)] by blast
  have nN: "n \<le> N" using Cons.prems(1) by (simp add: winv_def)
  note dc = drain_commits[OF pre nN, of env zw]
  show ?case
  proof (cases "drain env n pending zw")
    case (Inl a)
    then show ?thesis using dc by (subst writerLoop_drains_first) (auto split: prod.splits)
  next
    case (Inr b)
    obtain n' pending' zw' where b: "b = (n', pending', zw')" by (cases b)
    from dc Inr b have a: "n \<le> n'" "n' \<le> N"
      "commitInWalkOrder env zw (map R [n..N - 1]) = commitInWalkOrder env zw' (map R [n'..N - 1])"
      "map_of pending' = (\<lambda>k. if n \<le> k \<and> k < n' then None else map_of pending k)"
      "{n..<n'} \<subseteq> dom (map_of pending)" "map_of pending' n' = None"
      by auto
    have inv': "winv R N n' (map_of pending') (k # ks)"
      by (rule winv_after_drain[OF Cons.prems(1) a(1,2,5,4)])
    have idx': "\<forall>j. n' \<le> j \<and> j < N \<longrightarrow> r_idx (R j) = j" using Cons.prems(2) a(1) by auto
    have red: "writerLoop env n pending zw (map R (k # ks))
                 = writerLoop env n' pending' zw' (R k # map R ks)"
      using Inr b by (subst writerLoop_drains_first) simp
    from inv' have kin: "n' \<le> k" "k < N" and kd: "k \<notin> dom (map_of pending')"
      and dks: "distinct ks" "k \<notin> set ks"
      and dis: "dom (map_of pending') \<inter> set ks = {}"
      and un: "dom (map_of pending') \<union> insert k (set ks) = {n'..<N}"
      and rr: "\<forall>j r. map_of pending' j = Some r \<longrightarrow> r = R j"
      by (auto simp: winv_def)
    from idx' kin have ik: "r_idx (R k) = k" by simp
    show ?thesis
    proof (cases "k = n'")
      case False
      let ?p = "AList.update k (R k) pending'"
      have "winv R N n' (map_of ?p) ks"
        using dks dis un rr a(2) kd
        by (auto simp: winv_def update_conv' split: if_splits)
      from Cons.IH[OF this idx']
      have "writerLoop env n' ?p zw' (map R ks) = commitInWalkOrder env zw' (map R [n'..N - 1])" .
      moreover have "writerLoop env n' pending' zw' (R k # map R ks) = writerLoop env n' ?p zw' (map R ks)"
        using False ik a(6) by (simp add: writerLoop_idle_cons)
      ultimately show ?thesis using red a(3) by simp
    next
      case True
      then have up: "[n'..N - 1] = n' # [n' + 1..N - 1]" using kin by (simp add: upto_rec1)
      have step0: "winv R N (n' + 1) (map_of pending') ks"
      proof -
        have "dom (map_of pending') \<union> set ks
                = insert k (dom (map_of pending') \<union> set ks) - {k}"
          using kd dks by blast
        also have "\<dots> = {n'..<N} - {k}" using un by simp
        also have "\<dots> = {n' + 1..<N}" using True by auto
        finally have "dom (map_of pending') \<union> set ks = {n' + 1..<N}" .
        then show ?thesis using dks dis rr kin True by (simp add: winv_def)
      qed
      show ?thesis
      proof (cases "r_err (R k)")
        case (Some e)
        then show ?thesis using red a(3) up True ik a(6) by (simp add: writerLoop_idle_cons)
      next
        case None
        obtain we zw1 where w: "writeOne env zw' (R k) = (we, zw1)" by (cases "writeOne env zw' (R k)")
        show ?thesis
        proof (cases we)
          case (Some e)
          then show ?thesis using red a(3) up True ik a(6) None w
            by (simp add: writerLoop_idle_cons)
        next
          case wn: None
          have pre1: "\<forall>j r. map_of pending' j = Some r \<longrightarrow> r = R j \<and> j < N"
            using winv_keys[OF step0] by blast
          have n1: "n' + 1 \<le> N" using kin True by simp
          note dc1 = drain_commits[OF pre1 n1, of env zw1]
          have cm: "commitInWalkOrder env zw' (map R [n'..N - 1])
                      = commitInWalkOrder env zw1 (map R [n' + 1..N - 1])"
            using up True None w wn by simp
          have wl: "writerLoop env n' pending' zw' (R k # map R ks)
                      = (case drain env (n' + 1) pending' zw1 of
                           Inl (err, zw'') \<Rightarrow> (Some err, zw'')
                         | Inr (n'', pending'', zw'') \<Rightarrow> writerLoop env n'' pending'' zw'' (map R ks))"
            using True ik a(6) None w wn by (simp add: writerLoop_idle_cons)
          show ?thesis
          proof (cases "drain env (n' + 1) pending' zw1")
            case (Inl c)
            then show ?thesis using dc1 wl cm red a(3) by (auto split: prod.splits)
          next
            case (Inr c)
            obtain n2 pending2 zw2 where c: "c = (n2, pending2, zw2)" by (cases c)
            from dc1 Inr c have a': "n' + 1 \<le> n2" "n2 \<le> N"
              "commitInWalkOrder env zw1 (map R [n' + 1..N - 1]) = commitInWalkOrder env zw2 (map R [n2..N - 1])"
              "map_of pending2 = (\<lambda>j. if n' + 1 \<le> j \<and> j < n2 then None else map_of pending' j)"
              "{n' + 1..<n2} \<subseteq> dom (map_of pending')"
              by auto
            have inv2: "winv R N n2 (map_of pending2) ks"
              by (rule winv_after_drain[OF step0 a'(1,2,5,4)])
            have idx2: "\<forall>j. n2 \<le> j \<and> j < N \<longrightarrow> r_idx (R j) = j" using idx' a'(1) by auto
            from Cons.IH[OF inv2 idx2]
            have "writerLoop env n2 pending2 zw2 (map R ks) = commitInWalkOrder env zw2 (map R [n2..N - 1])" .
            then show ?thesis using wl Inr c cm a'(3) red a(3) by simp
          qed
        qed
      qed
    qed
  qed
qed


lemma indexOf_ge: "- 1 \<le> indexOf arr x"
  by (induction arr) (auto simp: Let_def)

lemma indexOf_mem:
  "x \<in> set arr \<Longrightarrow> 0 \<le> indexOf arr x \<and> indexOf arr x < int (length arr)
                     \<and> arr ! nat (indexOf arr x) = x"
proof (induction arr)
  case Nil
  then show ?case by simp
next
  case (Cons v arr)
  show ?case
  proof (cases "v = x")
    case True
    then show ?thesis by simp
  next
    case False
    with Cons.prems have "x \<in> set arr" by simp
    from Cons.IH[OF this] False show ?thesis
      by (auto simp: Let_def nat_add_distrib)
  qed
qed

lemma indexOf_nth:
  "distinct arr \<Longrightarrow> i < length arr \<Longrightarrow> indexOf arr (arr ! i) = int i"
proof (induction arr arbitrary: i)
  case Nil
  then show ?case by simp
next
  case (Cons v arr)
  show ?case
  proof (cases i)
    case 0
    then show ?thesis by simp
  next
    case (Suc j)
    with Cons.prems have j: "j < length arr" and "arr ! j \<noteq> v" by auto
    with Cons.IH[OF _ j] Cons.prems(1) Suc show ?thesis by (auto simp: Let_def)
  qed
qed

lemma worker_idx: "r_idx (worker env src baseDir paths p) = indexOf paths p"
  by (auto simp: worker_def Let_def split: sum.splits)

lemma map_upto_nth:
  "map (\<lambda>k. f (xs ! nat k)) [0..int (length xs) - 1] = map f xs"
proof (rule nth_equalityI)
  show "length (map (\<lambda>k. f (xs ! nat k)) [0..int (length xs) - 1]) = length (map f xs)"
    by simp
next
  fix i assume "i < length (map (\<lambda>k. f (xs ! nat k)) [0..int (length xs) - 1])"
  then have i: "i < length xs" by simp
  then show "map (\<lambda>k. f (xs ! nat k)) [0..int (length xs) - 1] ! i = map f xs ! i"
    by (simp add: nth_upto)
qed

lemma writer_any_order:
  assumes d: "distinct paths" and perm: "mset arrival = mset paths"
  shows "writerLoop env 0 [] zw (map (worker env src baseDir paths) arrival)
           = commitInWalkOrder env zw (map (worker env src baseDir paths) paths)"
proof -
  let ?W = "worker env src baseDir paths"
  let ?R = "\<lambda>k. ?W (paths ! nat k)"
  let ?N = "int (length paths)"
  let ?ks = "map (indexOf paths) arrival"
  from perm have seteq: "set arrival = set paths" by (rule mset_eq_setD)
  from perm d have da: "distinct arrival" by (metis mset_eq_imp_distinct_iff)
  have inj: "inj_on (indexOf paths) (set arrival)"
  proof (rule inj_onI)
    fix x y assume "x \<in> set arrival" "y \<in> set arrival" "indexOf paths x = indexOf paths y"
    then show "x = y" using indexOf_mem[of x paths] indexOf_mem[of y paths] seteq by metis
  qed
  have dks: "distinct ?ks" using da inj by (simp add: distinct_map)
  have sks: "set ?ks = {0..<?N}"
  proof
    show "set ?ks \<subseteq> {0..<?N}" using indexOf_mem seteq by auto
  next
    show "{0..<?N} \<subseteq> set ?ks"
    proof
      fix k assume "k \<in> {0..<?N}"
      then have k: "nat k < length paths" "int (nat k) = k" by auto
      then have "indexOf paths (paths ! nat k) = k" using indexOf_nth[OF d k(1)] by simp
      moreover have "paths ! nat k \<in> set arrival" using k(1) seteq by simp
      ultimately show "k \<in> set ?ks" by force
    qed
  qed
  have inv: "winv ?R ?N 0 (map_of []) ?ks"
    using dks sks by (simp add: winv_def)
  have idx: "\<forall>k. 0 \<le> k \<and> k < ?N \<longrightarrow> r_idx (?R k) = k"
  proof (intro allI impI)
    fix k assume "0 \<le> k \<and> k < ?N"
    then have k: "nat k < length paths" "int (nat k) = k" by auto
    show "r_idx (?R k) = k" using indexOf_nth[OF d k(1)] k(2) by (simp add: worker_idx)
  qed
  have arr: "map ?W arrival = map ?R ?ks"
    using indexOf_mem seteq by (auto simp: comp_def)
  have "writerLoop env 0 [] zw (map ?R ?ks) = commitInWalkOrder env zw (map ?R [0..?N - 1])"
    by (rule writerLoop_commits[OF inv idx])
  then have "writerLoop env 0 [] zw (map ?W arrival) = commitInWalkOrder env zw (map ?R [0..?N - 1])"
    by (simp only: arr)
  then show ?thesis by (simp only: map_upto_nth[of ?W paths])
qed

lemma writeOne_success:
  "writeOne env zw r = (None, zw') \<Longrightarrow> zw' = zw @ written env r"
  by (auto simp: writeOne_def written_def split: option.splits prod.splits)

lemma commit_success:
  "commitInWalkOrder env zw rs = (None, zw') \<Longrightarrow> zw' = zw @ concat (map (written env) rs)"
proof (induction rs arbitrary: zw)
  case Nil
  then show ?case by simp
next
  case (Cons r rs)
  from Cons.prems obtain zw1 where w: "writeOne env zw r = (None, zw1)"
    and c: "commitInWalkOrder env zw1 rs = (None, zw')"
    by (auto split: option.splits prod.splits)
  from Cons.IH[OF c] writeOne_success[OF w] show ?case by simp
qed

lemma commit_append:
  "commitInWalkOrder env zw (xs @ ys) =
     (case commitInWalkOrder env zw xs of
        (Some e, zw') \<Rightarrow> (Some e, zw')
      | (None, zw') \<Rightarrow> commitInWalkOrder env zw' ys)"
  by (induction xs arbitrary: zw) (auto split: option.splits prod.splits)

lemma pack_any_order:
  assumes "p_WalkDir env (Clean src) = Inr walked" "distinct walked" "mset arrival = mset walked"
  shows "ZipParallelAll env arrival src zipPath = packInWalkOrder env src zipPath"
proof -
  have d: "distinct (sort walked)" using assms(2) by simp
  have p: "mset arrival = mset (sort walked)" using assms(3) by simp
  show ?thesis
    unfolding ZipParallelAll_def packInWalkOrder_def Let_def
    using assms(1) writer_any_order[OF d p]
    by (auto split: sum.splits option.splits)
qed

section \<open>Properties of packing: order, errors, reproducibility, names\<close>

lemma indexOf_self_map:
  assumes "distinct xs"
  shows "map (indexOf xs) xs = [0..int (length xs) - 1]"
proof (rule nth_equalityI)
  show "length (map (indexOf xs) xs) = length [0..int (length xs) - 1]" by simp
next
  fix i assume "i < length (map (indexOf xs) xs)"
  then have i: "i < length xs" by simp
  then show "map (indexOf xs) xs ! i = [0..int (length xs) - 1] ! i"
    using indexOf_nth[OF assms i] by (simp add: nth_upto)
qed

lemma prepared_idx:
  "distinct walked \<Longrightarrow> map r_idx (prepared env src walked) = [0..int (length walked) - 1]"
  using indexOf_self_map[of "sort walked"]
  by (simp add: prepared_def Let_def comp_def worker_idx)

lemma packInWalkOrder_commit:
  assumes "p_Stat env (Clean src) = Inr info"
    and "p_MkdirAll env (Dir zipPath) = None \<or> p_MkdirAll env (Dir zipPath) = Some ErrExist"
    and "p_WalkDir env (Clean src) = Inr walked"
    and "p_Create env zipPath = None"
  shows "packInWalkOrder env src zipPath =
           (case commitInWalkOrder env [] (prepared env src walked) of
              (Some err, zw) \<Rightarrow> (Some err, zw)
            | (None, zw) \<Rightarrow>
                (case p_CloseZip env of
                   Some err \<Rightarrow> (Some err, zw)
                 | None \<Rightarrow> (p_CloseOut env, zw)))"
  using assms by (auto simp: packInWalkOrder_def prepared_def Let_def)

lemma packInWalkOrder_success:
  assumes "p_WalkDir env (Clean src) = Inr walked"
    and "fst (packInWalkOrder env src zipPath) = None"
  shows "commitInWalkOrder env [] (prepared env src walked)
           = (None, snd (packInWalkOrder env src zipPath))"
proof -
  obtain e zw where c: "commitInWalkOrder env [] (prepared env src walked) = (e, zw)"
    by (cases "commitInWalkOrder env [] (prepared env src walked)")
  from assms c show ?thesis
    unfolding packInWalkOrder_def prepared_def Let_def
    by (auto split: sum.splits option.splits if_splits prod.splits)
qed

text \<open>
  C1. For every source tree whose walk yields each path once, and for every order in
  which the results of the preparing workers arrive, the packing pipeline returns what
  committing the prepared entries one after the other in sorted walk order returns. The
  sequence numbers of the prepared entries are \<open>0, 1, \<dots>, N - 1\<close> in that order, and
  after a successful run the archive holds exactly what each prepared entry writes, in
  walk order, each once.
\<close>

theorem pack_commits_in_walk_order:
  assumes "p_WalkDir env (Clean src) = Inr walked" "distinct walked" "mset arrival = mset walked"
  shows "ZipParallelAll env arrival src zipPath = packInWalkOrder env src zipPath
       \<and> map r_idx (prepared env src walked) = [0..int (length walked) - 1]
       \<and> (fst (ZipParallelAll env arrival src zipPath) = None \<longrightarrow>
            snd (ZipParallelAll env arrival src zipPath)
              = concat (map (written env) (prepared env src walked)))"
proof -
  have eq: "ZipParallelAll env arrival src zipPath = packInWalkOrder env src zipPath"
    by (rule pack_any_order[OF assms])
  have ok: "snd (packInWalkOrder env src zipPath) = concat (map (written env) (prepared env src walked))"
    if "fst (packInWalkOrder env src zipPath) = None"
    using commit_success[OF packInWalkOrder_success[OF assms(1) that]] by simp
  show ?thesis using eq prepared_idx[OF assms(2)] ok by simp
qed

theorem pack_commits_in_walk_order_witness:
  "ZipParallelAll (exTree 100) [''proj/b.txt'', ''proj/a.txt'', ''proj''] ''proj'' ''out/proj.zip''
     = packInWalkOrder (exTree 100) ''proj'' ''out/proj.zip''
   \<and> map (h_Name \<circ> fst)
        (snd (ZipParallelAll (exTree 100) [''proj/b.txt'', ''proj/a.txt'', ''proj''] ''proj''
                ''out/proj.zip''))
       = [''proj/'', ''proj/a.txt'', ''proj/b.txt'']"
proof -
  let ?walked = "[''proj'', ''proj/a.txt'', ''proj/b.txt'']"
  have h1: "p_WalkDir (exTree 100) (Clean ''proj'') = Inr ?walked" by code_simp
  have h2: "distinct ?walked" by simp
  have h3: "mset [''proj/b.txt'', ''proj/a.txt'', ''proj''] = mset ?walked" by simp
  have v: "map (h_Name \<circ> fst)
        (snd (ZipParallelAll (exTree 100) [''proj/b.txt'', ''proj/a.txt'', ''proj''] ''proj''
                ''out/proj.zip''))
       = [''proj/'', ''proj/a.txt'', ''proj/b.txt'']"
    by code_simp
  from pack_commits_in_walk_order[OF h1 h2 h3, of "''out/proj.zip''"] v show ?thesis by blast
qed

text \<open>
  C5 (amended). If a prepared entry carries an error and every entry with a smaller
  sequence number is written to the container without failure, the pack operation
  returns that entry's error, whatever the order of arrival; the archive then holds
  exactly what the entries with smaller sequence numbers wrote, and none of them
  carries an error.
\<close>

theorem pack_returns_earliest_error:
  assumes "p_Stat env (Clean src) = Inr info"
    and "p_MkdirAll env (Dir zipPath) = None \<or> p_MkdirAll env (Dir zipPath) = Some ErrExist"
    and "p_WalkDir env (Clean src) = Inr walked"
    and "p_Create env zipPath = None"
    and "distinct walked" "mset arrival = mset walked"
    and "k < length (prepared env src walked)"
    and "r_err (prepared env src walked ! k) = Some e"
    and "commitInWalkOrder env [] (take k (prepared env src walked)) = (None, zw)"
  shows "ZipParallelAll env arrival src zipPath = (Some e, zw)
       \<and> zw = concat (map (written env) (take k (prepared env src walked)))
       \<and> list_all (\<lambda>r. r_err r = None) (take k (prepared env src walked))"
proof -
  let ?rs = "prepared env src walked"
  have split: "?rs = take k ?rs @ (?rs ! k) # drop (Suc k) ?rs"
    using assms(7) by (simp add: id_take_nth_drop)
  have "commitInWalkOrder env [] ?rs
          = commitInWalkOrder env [] (take k ?rs @ (?rs ! k) # drop (Suc k) ?rs)"
    using split by simp
  also have "\<dots> = (Some e, zw)"
    using assms(8,9) by (simp add: commit_append)
  finally have c: "commitInWalkOrder env [] ?rs = (Some e, zw)" .
  have "ZipParallelAll env arrival src zipPath = packInWalkOrder env src zipPath"
    by (rule pack_any_order[OF assms(3,5,6)])
  also have "\<dots> = (Some e, zw)"
    using packInWalkOrder_commit[OF assms(1-4)] c by simp
  finally have r: "ZipParallelAll env arrival src zipPath = (Some e, zw)" .
  have noerr: "list_all (\<lambda>r. r_err r = None) rs" if "commitInWalkOrder env z rs = (None, z')" for rs z z'
    using that by (induction rs arbitrary: z) (auto split: option.splits prod.splits)
  show ?thesis using r commit_success[OF assms(9)] noerr[OF assms(9)] by simp
qed

theorem pack_returns_earliest_error_witness:
  "ZipParallelAll exDangling [''proj/b.txt'', ''proj/a.txt'', ''proj''] ''proj'' ''out/proj.zip''
     = (Some enoent,
        snd (commitInWalkOrder exDangling []
               (take 2 (prepared exDangling ''proj'' [''proj'', ''proj/a.txt'', ''proj/b.txt'']))))
   \<and> map (h_Name \<circ> fst)
        (snd (commitInWalkOrder exDangling []
               (take 2 (prepared exDangling ''proj'' [''proj'', ''proj/a.txt'', ''proj/b.txt'']))))
       = [''proj/'', ''proj/a.txt'']"
proof -
  let ?walked = "[''proj'', ''proj/a.txt'', ''proj/b.txt'']"
  let ?rs = "prepared exDangling ''proj'' ?walked"
  let ?c = "commitInWalkOrder exDangling [] (take 2 ?rs)"
  have h1: "p_Stat exDangling (Clean ''proj'')
              = Inr \<lparr>st_Name = ''proj'', st_IsDir = True, st_Perm = 493, st_Size = 0, st_ModTime = 1\<rparr>"
    by code_simp
  have h2: "p_MkdirAll exDangling (Dir ''out/proj.zip'') = None
              \<or> p_MkdirAll exDangling (Dir ''out/proj.zip'') = Some ErrExist"
    by (simp add: exDangling_def exTree_def)
  have h3: "p_WalkDir exDangling (Clean ''proj'') = Inr ?walked" by code_simp
  have h4: "p_Create exDangling ''out/proj.zip'' = None" by (simp add: exDangling_def exTree_def)
  have h5: "distinct ?walked" by simp
  have h6: "mset [''proj/b.txt'', ''proj/a.txt'', ''proj''] = mset ?walked" by simp
  have h7: "2 < length ?rs" by code_simp
  have h8: "r_err (?rs ! 2) = Some enoent" by code_simp
  have "fst ?c = None" by code_simp
  then have h9: "?c = (None, snd ?c)" by (metis prod.collapse)
  have v: "map (h_Name \<circ> fst) (snd ?c) = [''proj/'', ''proj/a.txt'']" by code_simp
  from pack_returns_earliest_error[OF h1 h2 h3 h4 h5 h6 h7 h8 h9] v show ?thesis by blast
qed

text \<open>
  The claim as the specification states it fails when the writing of an earlier entry
  fails: \<open>proj/a.txt\<close> can be stat'ed but not read, so its prepared entry carries no
  error and its content function fails when the writer commits it; that failure is
  returned, not the error carried by the later entry \<open>proj/b.txt\<close>.
\<close>

theorem pack_write_failure_first_counterexample:
  "map r_err (prepared exUnreadable ''proj'' [''proj'', ''proj/a.txt'', ''proj/b.txt''])
     = [None, None, Some enoent]
   \<and> fst (ZipParallelAll exUnreadable [''proj'', ''proj/a.txt'', ''proj/b.txt''] ''proj'' ''out/proj.zip'')
       = Some eacces
   \<and> eacces \<noteq> enoent"
  by code_simp

lemma worker_clock:
  "clk p = p_Now env p \<Longrightarrow>
     worker (env\<lparr>p_Now := clk\<rparr>) src baseDir paths p = worker env src baseDir paths p"
  by (auto simp: worker_def relInside_def Let_def split: sum.splits)

lemma writeOne_clock: "writeOne (env\<lparr>p_Now := clk\<rparr>) zw r = writeOne env zw r"
  by (auto simp: writeOne_def split: option.splits prod.splits)

lemma commit_clock:
  "commitInWalkOrder (env\<lparr>p_Now := clk\<rparr>) zw rs = commitInWalkOrder env zw rs"
  by (induction rs arbitrary: zw) (auto simp: writeOne_clock split: option.splits prod.splits)

lemma packInWalkOrder_clock:
  assumes "p_WalkDir env (Clean src) = Inr walked" "\<forall>p \<in> set walked. clk p = p_Now env p"
  shows "packInWalkOrder (env\<lparr>p_Now := clk\<rparr>) src zipPath = packInWalkOrder env src zipPath"
proof -
  have "map (worker (env\<lparr>p_Now := clk\<rparr>) s b (sort walked)) (sort walked)
          = map (worker env s b (sort walked)) (sort walked)" for s b
    using assms(2) by (intro map_cong refl worker_clock) simp
  then have m: "map (worker (env\<lparr>p_Now := clk\<rparr>) s b (sort walked)) (sort walked)
          = map (worker env s b (sort walked)) (sort walked)" for s b .
  show ?thesis
    unfolding packInWalkOrder_def Let_def
    by (auto simp: m commit_clock assms(1) split: sum.splits option.splits prod.splits)
qed

text \<open>
  C3 (amended). Two runs of the pack operation on an unmodified source tree, whatever the
  orders in which their workers' results arrive, return the same value and write the same
  archive, provided the workers read the same clock values for the paths of the walk.
\<close>

theorem pack_reproducible_for_equal_clock:
  assumes "p_WalkDir env (Clean src) = Inr walked" "distinct walked"
    and "mset arrival1 = mset walked" "mset arrival2 = mset walked"
    and "\<forall>p \<in> set walked. clk p = p_Now env p"
  shows "ZipParallelAll (env\<lparr>p_Now := clk\<rparr>) arrival2 src zipPath
           = ZipParallelAll env arrival1 src zipPath"
proof -
  have w: "p_WalkDir (env\<lparr>p_Now := clk\<rparr>) (Clean src) = Inr walked" using assms(1) by simp
  have "ZipParallelAll (env\<lparr>p_Now := clk\<rparr>) arrival2 src zipPath
          = packInWalkOrder (env\<lparr>p_Now := clk\<rparr>) src zipPath"
    by (rule pack_any_order[OF w assms(2,4)])
  also have "\<dots> = packInWalkOrder env src zipPath"
    by (rule packInWalkOrder_clock[OF assms(1,5)])
  also have "\<dots> = ZipParallelAll env arrival1 src zipPath"
    by (rule pack_any_order[OF assms(1,2,3), symmetric])
  finally show ?thesis .
qed

theorem pack_reproducible_for_equal_clock_witness:
  "ZipParallelAll ((exTree 100)\<lparr>p_Now := (\<lambda>p. 100)\<rparr>) [''proj/a.txt'', ''proj'', ''proj/b.txt'']
       ''proj'' ''out/proj.zip''
     = ZipParallelAll (exTree 100) [''proj/b.txt'', ''proj/a.txt'', ''proj''] ''proj'' ''out/proj.zip''"
proof -
  let ?walked = "[''proj'', ''proj/a.txt'', ''proj/b.txt'']"
  have h1: "p_WalkDir (exTree 100) (Clean ''proj'') = Inr ?walked" by code_simp
  have h2: "distinct ?walked" by simp
  have h3: "mset [''proj/b.txt'', ''proj/a.txt'', ''proj''] = mset ?walked" by simp
  have h4: "mset [''proj/a.txt'', ''proj'', ''proj/b.txt''] = mset ?walked" by simp
  have h5: "\<forall>p \<in> set ?walked. (\<lambda>p. 100) p = p_Now (exTree 100) p" by (simp add: exTree_def)
  show ?thesis by (rule pack_reproducible_for_equal_clock[OF h1 h2 h3 h4 h5])
qed

text \<open>
  The claim as the specification states it fails because every header is stamped with
  \<open>time.Now()\<close>: the same tree packed at clock reading 100 and at clock reading 200
  gives two archives that differ.
\<close>

theorem pack_clock_changes_archive_counterexample:
  "exTree 200 = (exTree 100)\<lparr>p_Now := (\<lambda>p. 200)\<rparr>
   \<and> fst (ZipParallelAll (exTree 100) [''proj'', ''proj/a.txt'', ''proj/b.txt''] ''proj'' ''out/proj.zip'')
       = None
   \<and> fst (ZipParallelAll (exTree 200) [''proj'', ''proj/a.txt'', ''proj/b.txt''] ''proj'' ''out/proj.zip'')
       = None
   \<and> snd (ZipParallelAll (exTree 100) [''proj'', ''proj/a.txt'', ''proj/b.txt''] ''proj'' ''out/proj.zip'')
       \<noteq> snd (ZipParallelAll (exTree 200) [''proj'', ''proj/a.txt'', ''proj/b.txt''] ''proj''
                ''out/proj.zip'')"
proof (intro conjI)
  show "exTree 200 = (exTree 100)\<lparr>p_Now := (\<lambda>p. 200)\<rparr>" by (simp add: exTree_def)
qed code_simp+

lemma toZipPath_unix: "toZipPath p = p"
  by (simp add: toZipPath_def PathSeparator_def map_idI)

lemma Base_nonempty: "Base p \<noteq> []"
  by (auto simp: Base_def Let_def)

lemma commit_single_file:
  "commitInWalkOrder env [] [\<lparr>r_idx = i, r_hdr = Some h, r_write = Some p, r_err = None\<rparr>] =
     (case p_CreateHeader env [] h of
        Some err \<Rightarrow> (Some err, [])
      | None \<Rightarrow> (snd (p_Read env p), [(h, fst (p_Read env p))]))"
  by (auto simp: writeOne_def split: option.splits prod.splits)

lemma worker_single_file:
  assumes "p_Stat env p = Inr st" "\<not> st_IsDir st"
  shows "worker env p [] [p] p =
     (case p_FileInfoHeader env st of
        Inl e \<Rightarrow> \<lparr>r_idx = 0, r_hdr = None, r_write = None, r_err = Some e\<rparr>
      | Inr hdr \<Rightarrow>
          \<lparr>r_idx = 0,
           r_hdr = Some (hdr\<lparr>h_Name := Base p, h_Method := Deflate,
                             h_Modified := p_Now env p, h_Mode := st_Perm st\<rparr>),
           r_write = Some p, r_err = None\<rparr>)"
  using assms by (auto simp: worker_def relInside_def toZipPath_unix split: sum.splits)

text \<open>
  C9. Packing a single file (a source that is not a directory, whose walk is the file
  alone) puts at most one entry into the archive, named by the base name of the cleaned
  source path whatever its depth; when the operation succeeds the archive has exactly
  that one entry, with the file's permission bits and content.
\<close>

theorem pack_single_file:
  assumes "p_Stat env (Clean src) = Inr st" "\<not> st_IsDir st"
    and "p_WalkDir env (Clean src) = Inr [Clean src]"
  shows "length (snd (ZipParallelAll env [Clean src] src zipPath)) \<le> 1
       \<and> list_all (\<lambda>en. h_Name (fst en) = Base (Clean src))
           (snd (ZipParallelAll env [Clean src] src zipPath))
       \<and> (fst (ZipParallelAll env [Clean src] src zipPath) = None \<longrightarrow>
            (\<exists>h0. p_FileInfoHeader env st = Inr h0
               \<and> snd (ZipParallelAll env [Clean src] src zipPath)
                   = [(h0\<lparr>h_Name := Base (Clean src), h_Method := Deflate,
                           h_Modified := p_Now env (Clean src), h_Mode := st_Perm st\<rparr>,
                       fst (p_Read env (Clean src)))]))"
proof -
  let ?p = "Clean src"
  have eq: "ZipParallelAll env [?p] src zipPath = packInWalkOrder env src zipPath"
    by (rule pack_any_order[OF assms(3)]) simp_all
  note w = worker_single_file[OF assms(1,2)]
  show ?thesis
  proof (cases "p_FileInfoHeader env st")
    case (Inl e)
    then show ?thesis
      unfolding eq using assms w
      by (auto simp: packInWalkOrder_def Let_def split: option.splits)
  next
    case (Inr h0)
    then show ?thesis
      unfolding eq using assms w
      by (auto simp: packInWalkOrder_def Let_def commit_single_file
               simp del: commitInWalkOrder.simps split: option.splits)
  qed
qed

theorem pack_single_file_witness:
  "ZipParallelAll (exTree 100) [''proj/a.txt''] ''proj/a.txt'' ''out/a.zip''
     = (None, [(\<lparr>h_Name = ''a.txt'', h_Method = Deflate, h_Modified = 100, h_Mode = 420, h_Size = 5\<rparr>,
                ''hello'')])
   \<and> length (snd (ZipParallelAll (exTree 100) [Clean ''proj/a.txt''] ''proj/a.txt'' ''out/a.zip'')) \<le> 1
   \<and> list_all (\<lambda>en. h_Name (fst en) = Base (Clean ''proj/a.txt''))
        (snd (ZipParallelAll (exTree 100) [Clean ''proj/a.txt''] ''proj/a.txt'' ''out/a.zip''))"
proof -
  have h1: "p_Stat (exTree 100) (Clean ''proj/a.txt'')
              = Inr \<lparr>st_Name = ''a.txt'', st_IsDir = False, st_Perm = 420, st_Size = 5, st_ModTime = 2\<rparr>"
    by code_simp
  have h2: "\<not> st_IsDir \<lparr>st_Name = ''a.txt'', st_IsDir = False, st_Perm = 420, st_Size = 5, st_ModTime = 2\<rparr>"
    by simp
  have h3: "p_WalkDir (exTree 100) (Clean ''proj/a.txt'') = Inr [Clean ''proj/a.txt'']" by code_simp
  have v: "ZipParallelAll (exTree 100) [''proj/a.txt''] ''proj/a.txt'' ''out/a.zip''
     = (None, [(\<lparr>h_Name = ''a.txt'', h_Method = Deflate, h_Modified = 100, h_Mode = 420, h_Size = 5\<rparr>,
                ''hello'')])"
    by code_simp
  from pack_single_file[OF h1 h2 h3, of "''out/a.zip''"] v show ?thesis by blast
qed

text \<open>
  For the root of a directory source, \<open>relInside\<close> answers the base name, which is never
  empty; the worker therefore builds a directory header for the root, and the branch
  that sends a result without header is not taken.
\<close>

lemma worker_root_directory:
  assumes "p_Stat env src = Inr st" "st_IsDir st"
  shows "r_hdr (worker env src (Base src) paths src)
           = Some \<lparr>h_Name = Base src @ ''/'', h_Method = Store, h_Modified = p_Now env src,
                   h_Mode = 0, h_Size = 0\<rparr>"
  using assms Base_nonempty[of src]
  by (simp add: worker_def relInside_def toZipPath_unix)

text \<open>
  C4. The specification has the preparer emit ``nothing to write'' for the root of a
  whole-directory request, so that the archive holds no entry for the root. Packing the
  directory \<open>proj\<close> with its two files gives an archive whose first entry is \<open>proj/\<close>,
  the root itself.
\<close>

theorem pack_directory_writes_root_entry:
  "p_Stat (exTree 100) ''proj''
     = Inr \<lparr>st_Name = ''proj'', st_IsDir = True, st_Perm = 493, st_Size = 0, st_ModTime = 1\<rparr>
   \<and> ZipParallelAll (exTree 100) [''proj'', ''proj/a.txt'', ''proj/b.txt''] ''proj'' ''out/proj.zip''
       = (None,
          [(\<lparr>h_Name = ''proj/'', h_Method = Store, h_Modified = 100, h_Mode = 0, h_Size = 0\<rparr>, []),
           (\<lparr>h_Name = ''proj/a.txt'', h_Method = Deflate, h_Modified = 100, h_Mode = 420, h_Size = 5\<rparr>,
            ''hello''),
           (\<lparr>h_Name = ''proj/b.txt'', h_Method = Deflate, h_Modified = 100, h_Mode = 384, h_Size = 3\<rparr>,
            ''bye'')])"
  by code_simp

end
